theory Spec2Isabelle
  imports Complex_Main "HOL-Library.Option_ord"
begin

section \<open>Data model (models.py)\<close>

text \<open>
  A naive UTC \<open>datetime\<close> has microsecond resolution; it is modelled by the number of
  microseconds since the epoch. \<open>timedelta(seconds=n)\<close> for an integer \<open>n\<close> is
  \<open>n * 10^6\<close> microseconds, and \<open>td.total_seconds()\<close> is the exact quotient (the binary
  rounding of Python's float is not modelled).
\<close>

type_synonym datetime = int

definition timedelta :: "int \<Rightarrow> int" where
  "timedelta secs = secs * 1000000"

definition total_seconds :: "int \<Rightarrow> rat" where
  "total_seconds td = of_int td / 1000000"

text \<open>Python's \<open>int(x)\<close> on a float truncates towards zero.\<close>

definition py_int :: "rat \<Rightarrow> int" where
  "py_int x = (if x < 0 then \<lceil>x\<rceil> else \<lfloor>x\<rfloor>)"

text \<open>
  The row classes. \<open>id'\<close> is the primary key \<open>id\<close>; \<open>status\<close> is the string column
  (the code only ever writes \<open>'waiting'\<close> and \<open>'passed'\<close>); nullable columns are options.
\<close>

record Person =
  id' :: int
  name :: string
  status :: string
  position :: "int option"
  added_at :: "datetime option"
  passed_at :: "datetime option"

record Setting =
  tour_length_seconds :: int
  timer_paused :: bool
  start_time :: "datetime option"
  time_remaining_on_pause :: "int option"

text \<open>
  The database: the rows of table \<open>persons\<close> in row order, and the singleton row of table
  \<open>settings\<close> (\<open>get_setting\<close> creates it when absent, so it always exists for the
  operations below).
\<close>

record db =
  persons :: "Person list"
  setting :: Setting

datatype error = ValueError string | TypeError | OverflowError | BadRequest string

section \<open>Queries and row updates\<close>

text \<open>
  \<open>Person.query.filter_by(status='waiting')\<close>, and the same query ordered by position.
  \<open>ORDER BY position\<close> is modelled as SQLite evaluates it: \<open>NULL\<close> sorts first
  (\<open>None < Some x\<close>) and rows with equal keys keep their row order. On states whose waiting
  positions are distinct and not \<open>NULL\<close> the result does not depend on either choice.
\<close>

definition waiting_rows :: "Person list \<Rightarrow> Person list" where
  "waiting_rows ps = filter (\<lambda>p. status p = ''waiting'') ps"

definition get_waiting :: "Person list \<Rightarrow> Person list" where
  "get_waiting ps = sort_key position (waiting_rows ps)"

definition first_waiting :: "Person list \<Rightarrow> Person option" where
  "first_waiting ps = (case get_waiting ps of [] \<Rightarrow> None | p # _ \<Rightarrow> Some p)"

text \<open>
  \<open>ORDER BY passed_at DESC\<close>, again as SQLite evaluates it: largest timestamp first,
  \<open>NULL\<close> last, and rows with equal timestamps in row order. (The ascending sort is stable,
  so it is run on the reversed table and its result reversed.)
\<close>

definition get_passed :: "Person list \<Rightarrow> Person list" where
  "get_passed ps = rev (sort_key passed_at (rev (filter (\<lambda>p. status p = ''passed'') ps)))"

text \<open>\<open>Person.query.get(pid)\<close>: the row with that primary key.\<close>

definition query_get :: "int \<Rightarrow> Person list \<Rightarrow> Person option" where
  "query_get pid ps = find (\<lambda>p. id' p = pid) ps"

text \<open>
  Assigning to attributes of a loaded object writes the row with its primary key.
\<close>

definition update_row :: "int \<Rightarrow> (Person \<Rightarrow> Person) \<Rightarrow> Person list \<Rightarrow> Person list" where
  "update_row pid f ps = map (\<lambda>p. if id' p = pid then f p else p) ps"

text \<open>
  A \<open>for w in <query result>:\<close> loop whose body writes only \<open>w\<close> and may raise. The body is
  applied to every row of the table and is the identity on the rows the query does not
  return; the first exception aborts the loop. (The bodies below read, besides \<open>w\<close>, only
  values fixed before the loop, and raise only \<open>TypeError\<close>, so visiting the rows in row
  order instead of position order gives the same outcome.)
\<close>

fun for_rows :: "(Person \<Rightarrow> error + Person) \<Rightarrow> Person list \<Rightarrow> error + Person list" where
  "for_rows body [] = Inr []"
| "for_rows body (w # ws) =
     (case body w of
        Inl e \<Rightarrow> Inl e
      | Inr w' \<Rightarrow> (case for_rows body ws of Inl e \<Rightarrow> Inl e | Inr ws' \<Rightarrow> Inr (w' # ws')))"

text \<open>Python's \<open>x or y\<close> on a nullable integer: \<open>None\<close> and \<open>0\<close> are falsy.\<close>

definition py_or :: "int option \<Rightarrow> int \<Rightarrow> int" where
  "py_or x y = (case x of None \<Rightarrow> y | Some v \<Rightarrow> if v = 0 then y else v)"

section \<open>Clock projection\<close>

text \<open>\<open>compute_time_remaining_seconds(setting)\<close>, with \<open>datetime.utcnow()\<close> as \<open>now\<close>.\<close>

definition compute_time_remaining_seconds :: "datetime \<Rightarrow> Setting \<Rightarrow> int option" where
  "compute_time_remaining_seconds now s =
     (if timer_paused s then time_remaining_on_pause s
      else case start_time s of
        None \<Rightarrow> None
      | Some start \<Rightarrow>
          (let elapsed = total_seconds (now - start)
           in Some (max (py_int (of_int (tour_length_seconds s) - elapsed)) 0)))"

text \<open>
  The projection as the specification words it: the frozen value when paused, nothing when
  there is no anchor, else \<open>max(0, intervalSeconds - secondsSince(anchorTime))\<close> floored.
\<close>

definition remainingSeconds_spec :: "datetime \<Rightarrow> Setting \<Rightarrow> int option" where
  "remainingSeconds_spec now s =
     (if timer_paused s then time_remaining_on_pause s
      else case start_time s of
        None \<Rightarrow> None
      | Some anchorTime \<Rightarrow>
          Some \<lfloor>max 0 (of_int (tour_length_seconds s) - total_seconds (now - anchorTime))\<rfloor>)"

section \<open>Catch-up advance\<close>

text \<open>
  The body of the position shift in \<open>process_timer_advances\<close> and \<open>advance_next\<close>
  (\<open>for w in waiting: if w.id == first.id: continue; if w.position and w.position >
  first.position: w.position -= 1\<close>). \<open>first\<close> is the loaded head with its old position.
  Comparing an integer with \<open>None\<close> raises \<open>TypeError\<close>.
\<close>

definition shift_up_body :: "Person \<Rightarrow> Person \<Rightarrow> error + Person" where
  "shift_up_body first w =
     (if status w = ''waiting'' \<and> id' w \<noteq> id' first then
        (case position w of
           None \<Rightarrow> Inr w
         | Some wp \<Rightarrow>
             if wp = 0 then Inr w
             else (case position first of
                     None \<Rightarrow> Inl TypeError
                   | Some fp \<Rightarrow> if wp > fp then Inr (w\<lparr>position := Some (wp - 1)\<rparr>) else Inr w))
      else Inr w)"

text \<open>
  Popping the head, as both functions do it: mark \<open>first\<close> passed with the given stamp,
  shift the other waiting rows, clear \<open>first.position\<close>.
\<close>

definition pop_head :: "datetime \<Rightarrow> Person \<Rightarrow> Person list \<Rightarrow> error + Person list" where
  "pop_head stamp first ps =
     (let ps1 = update_row (id' first) (\<lambda>p. p\<lparr>status := ''passed'', passed_at := Some stamp\<rparr>) ps
      in case for_rows (shift_up_body first) ps1 of
           Inl e \<Rightarrow> Inl e
         | Inr ps2 \<Rightarrow> Inr (update_row (id' first) (\<lambda>p. p\<lparr>position := None\<rparr>) ps2))"

lemma for_rows_status:
  assumes "for_rows body ps = Inr ps'" and "\<And>w w'. body w = Inr w' \<Longrightarrow> status w' = status w"
  shows "map status ps' = map status ps"
  using assms(1)
proof (induction ps arbitrary: ps')
  case Nil
  then show ?case by simp
next
  case (Cons w ws)
  then show ?case by (auto split: sum.splits dest: assms(2))
qed

lemma length_waiting_rows: "length (waiting_rows ps) = length (filter (\<lambda>s. s = ''waiting'') (map status ps))"
  by (simp add: waiting_rows_def filter_map o_def)

lemma shift_up_body_status: "shift_up_body first w = Inr w' \<Longrightarrow> status w' = status w"
  by (auto simp: shift_up_body_def split: if_splits option.splits)

lemma first_waiting_in_waiting_rows:
  assumes "first_waiting ps = Some first"
  shows "first \<in> set (waiting_rows ps)"
proof -
  from assms obtain rest where "get_waiting ps = first # rest"
    by (auto simp: first_waiting_def split: list.splits)
  then have "first \<in> set (get_waiting ps)" by simp
  then show ?thesis by (simp add: get_waiting_def)
qed

lemma pop_head_fewer_waiting:
  assumes "first_waiting ps = Some first" and "pop_head stamp first ps = Inr ps'"
  shows "length (waiting_rows ps') < length (waiting_rows ps)"
proof -
  let ?ps1 = "update_row (id' first) (\<lambda>p. p\<lparr>status := ''passed'', passed_at := Some stamp\<rparr>) ps"
  from assms(2) obtain ps2 where ps2: "for_rows (shift_up_body first) ?ps1 = Inr ps2"
    and ps': "ps' = update_row (id' first) (\<lambda>p. p\<lparr>position := None\<rparr>) ps2"
    by (auto simp: pop_head_def Let_def split: sum.splits)
  have "map status ps' = map status ps2"
    by (simp add: ps' update_row_def)
  also have "\<dots> = map status ?ps1"
    using ps2 shift_up_body_status by (rule for_rows_status)
  finally have "length (waiting_rows ps') = length (waiting_rows ?ps1)"
    by (simp add: length_waiting_rows)
  also have "waiting_rows ?ps1 = filter (\<lambda>p. id' p \<noteq> id' first) (waiting_rows ps)"
    by (induction ps) (auto simp: waiting_rows_def update_row_def)
  also have "length \<dots> < length (waiting_rows ps)"
    using first_waiting_in_waiting_rows [OF assms(1)] by (auto intro!: length_filter_less)
  finally show ?thesis .
qed

text \<open>
  The \<open>while True\<close> loop of \<open>process_timer_advances\<close>. \<open>tour_len\<close> is read before the loop.
  Each round commits the pop before it moves the anchor; an exception in the shift leaves
  the database as the previous round committed it, so the result is the committed state
  together with the exception raised, if any. \<open>utcnow()\<close> is taken as the same instant in
  every round.
\<close>

function pta_loop :: "datetime \<Rightarrow> int \<Rightarrow> db \<Rightarrow> db \<times> error option" where
  "pta_loop now tour_len d =
     (case start_time (setting d) of
        None \<Rightarrow> (d, None)
      | Some st \<Rightarrow>
          if total_seconds (now - st) < of_int tour_len then (d, None)
          else (case first_waiting (persons d) of
                  None \<Rightarrow>
                    (d\<lparr>setting := (setting d)\<lparr>start_time := None, time_remaining_on_pause := None\<rparr>\<rparr>,
                     None)
                | Some first \<Rightarrow>
                    (case pop_head (st + timedelta tour_len) first (persons d) of
                       Inl e \<Rightarrow> (d, Some e)
                     | Inr ps' \<Rightarrow>
                         pta_loop now tour_len
                           (d\<lparr>persons := ps',
                              setting := (setting d)\<lparr>start_time :=
                                (if get_waiting ps' \<noteq> [] then Some (st + timedelta tour_len)
                                 else None)\<rparr>\<rparr>))))"
  by pat_completeness auto
termination
  by (relation "measure (\<lambda>(now, tour_len, d). length (waiting_rows (persons d)))")
     (auto dest: pop_head_fewer_waiting)

declare pta_loop.simps [simp del]

definition process_timer_advances :: "datetime \<Rightarrow> db \<Rightarrow> db \<times> error option" where
  "process_timer_advances now d =
     (let s = setting d
      in if timer_paused s \<or> start_time s = None then (d, None)
         else pta_loop now (tour_length_seconds s) d)"

section \<open>Enqueue, manual advance, undo\<close>

text \<open>
  The primary key of a new row: one more than the largest key in the table (SQLite's rule for
  an integer primary key), keys being positive.
\<close>

definition new_id :: "Person list \<Rightarrow> int" where
  "new_id ps = foldr max (map id' ps) 0 + 1"

definition add_person :: "datetime \<Rightarrow> string \<Rightarrow> db \<Rightarrow> Person \<times> db" where
  "add_person now nm d =
     (let waiting = get_waiting (persons d);
          max_pos = (if waiting \<noteq> [] then py_or (position (last waiting)) (int (length waiting))
                     else 0);
          new_person = \<lparr>id' = new_id (persons d), name = nm, status = ''waiting'',
                        position = Some (max_pos + 1), added_at = Some now, passed_at = None\<rparr>;
          s = setting d;
          s' = (if start_time s = None \<and> \<not> timer_paused s then s\<lparr>start_time := Some now\<rparr>
                else if start_time s = None \<and> timer_paused s then
                  (if time_remaining_on_pause s = None
                   then s\<lparr>time_remaining_on_pause := Some (tour_length_seconds s)\<rparr> else s)
                else s)
      in (new_person, \<lparr>persons = persons d @ [new_person], setting = s'\<rparr>))"

text \<open>
  \<open>advance_next\<close> returns \<open>None\<close> without touching anything when nobody waits; an exception
  in the shift happens before the only commit, so nothing is written then.
\<close>

definition advance_next :: "datetime \<Rightarrow> db \<Rightarrow> error + Person option \<times> db" where
  "advance_next now d =
     (case first_waiting (persons d) of
        None \<Rightarrow> Inr (None, d)
      | Some first \<Rightarrow>
          (case pop_head now first (persons d) of
             Inl e \<Rightarrow> Inl e
           | Inr ps' \<Rightarrow>
               (let s = setting d;
                    s1 = (if get_waiting ps' \<noteq> [] then s\<lparr>start_time := Some now\<rparr>
                          else s\<lparr>start_time := None\<rparr>);
                    s2 = (if timer_paused s1
                          then s1\<lparr>time_remaining_on_pause := Some (tour_length_seconds s1)\<rparr>
                          else s1)
                in Inr (Some (first\<lparr>status := ''passed'', passed_at := Some now, position := None\<rparr>),
                        \<lparr>persons = ps', setting = s2\<rparr>))))"

definition go_back :: "datetime \<Rightarrow> db \<Rightarrow> Person option \<times> db" where
  "go_back now d =
     (case get_passed (persons d) of
        [] \<Rightarrow> (None, d)
      | last_passed # _ \<Rightarrow>
          (let ps1 = map (\<lambda>w. if status w = ''waiting''
                              then w\<lparr>position := Some (py_or (position w) 0 + 1)\<rparr> else w)
                       (persons d);
               back = (\<lambda>p. p\<lparr>status := ''waiting'', position := Some 1, passed_at := None\<rparr>);
               ps2 = update_row (id' last_passed) back ps1;
               s = setting d;
               s' = (if \<not> timer_paused s then s\<lparr>start_time := Some now\<rparr>
                     else s\<lparr>time_remaining_on_pause := Some (tour_length_seconds s)\<rparr>)
           in (Some (back last_passed), \<lparr>persons = ps2, setting = s'\<rparr>)))"

section \<open>Bulk reorder\<close>

text \<open>
  \<open>reorder_waiting\<close>: every given id must be the id of a waiting row, else \<open>ValueError\<close>
  before any write; then the ids are walked front to back and each row gets its index plus one.
\<close>

definition reorder_waiting :: "datetime \<Rightarrow> int list \<Rightarrow> db \<Rightarrow> error + db" where
  "reorder_waiting now new_order_ids d =
     (let waiting_ids = set (map id' (waiting_rows (persons d)))
      in if \<exists>x \<in> set new_order_ids. x \<notin> waiting_ids
         then Inl (ValueError ''Invalid id in reorder'')
         else
           (let ps' = fold (\<lambda>(idx, pid). update_row pid (\<lambda>p. p\<lparr>position := Some (int idx + 1)\<rparr>))
                        (enumerate 0 new_order_ids) (persons d);
                s = setting d;
                s' = (if \<not> timer_paused s then s\<lparr>start_time := Some now\<rparr>
                      else s\<lparr>time_remaining_on_pause := Some (tour_length_seconds s)\<rparr>)
            in Inr \<lparr>persons = ps', setting = s'\<rparr>))"

section \<open>Arbitrary move\<close>

text \<open>
  To waiting, from passed: \<open>insert_pos\<close> is 1 when \<open>to_position\<close> is \<open>None\<close> or below 1, else
  \<open>min(len(waiting) + 1, to_position)\<close>; rows at or behind it move one back.
\<close>

definition move_from_passed :: "Person \<Rightarrow> int option \<Rightarrow> Person list \<Rightarrow> Person list" where
  "move_from_passed p to_position ps =
     (let waiting = get_waiting ps;
          insert_pos = (case to_position of
                          None \<Rightarrow> 1
                        | Some t \<Rightarrow> if t < 1 then 1 else min (int (length waiting) + 1) t);
          ps1 = map (\<lambda>w. if status w = ''waiting'' then
                             (case position w of
                                None \<Rightarrow> w
                              | Some wp \<Rightarrow> if wp \<noteq> 0 \<and> wp \<ge> insert_pos
                                           then w\<lparr>position := Some (wp + 1)\<rparr> else w)
                           else w) ps
      in update_row (id' p) (\<lambda>q. q\<lparr>status := ''waiting'', position := Some insert_pos,
                                    passed_at := None\<rparr>) ps1)"

text \<open>
  To waiting, already waiting. The loop bodies compare \<open>w.position\<close> with integers without a
  truthiness guard, so a \<open>NULL\<close> position raises.
\<close>

definition shift_others_down_body :: "int \<Rightarrow> int \<Rightarrow> Person \<Rightarrow> error + Person" where
  "shift_others_down_body to_pos old_pos w =
     (if status w \<noteq> ''waiting'' then Inr w
      else case position w of
        None \<Rightarrow> Inl TypeError
      | Some wp \<Rightarrow> Inr (if wp \<ge> to_pos \<and> wp < old_pos then w\<lparr>position := Some (wp + 1)\<rparr> else w))"

definition shift_others_up_body :: "int \<Rightarrow> int \<Rightarrow> Person \<Rightarrow> error + Person" where
  "shift_others_up_body to_pos old_pos w =
     (if status w \<noteq> ''waiting'' then Inr w
      else case position w of
        None \<Rightarrow> Inl TypeError
      | Some wp \<Rightarrow> Inr (if wp \<le> to_pos \<and> wp > old_pos then w\<lparr>position := Some (wp - 1)\<rparr> else w))"

text \<open>The result \<open>Inr None\<close> is the bare \<open>return\<close>: nothing written, timer untouched.\<close>

definition move_within_waiting ::
  "Person \<Rightarrow> int option \<Rightarrow> Person list \<Rightarrow> error + Person list option" where
  "move_within_waiting p to_position ps =
     (let waiting = get_waiting ps
      in case to_position of
           None \<Rightarrow> Inr None
         | Some t \<Rightarrow>
             (let to_pos = max 1 (min (int (length waiting)) t)
              in if position p = Some to_pos then Inr None
                 else case position p of
                   None \<Rightarrow> Inl TypeError
                 | Some old_pos \<Rightarrow>
                     (case for_rows (if old_pos > to_pos then shift_others_down_body to_pos old_pos
                                     else shift_others_up_body to_pos old_pos) ps of
                        Inl e \<Rightarrow> Inl e
                      | Inr ps1 \<Rightarrow>
                          Inr (Some (update_row (id' p) (\<lambda>q. q\<lparr>position := Some to_pos\<rparr>) ps1)))))"

text \<open>To passed: a waiting row leaves the queue and the rows behind it close the gap.\<close>

definition close_gap_body :: "Person \<Rightarrow> Person \<Rightarrow> error + Person" where
  "close_gap_body p w =
     (if status w \<noteq> ''waiting'' then Inr w
      else case position w of
        None \<Rightarrow> Inr w
      | Some wp \<Rightarrow>
          if wp = 0 then Inr w
          else (case position p of
                  None \<Rightarrow> Inl TypeError
                | Some pp \<Rightarrow> if wp > pp then Inr (w\<lparr>position := Some (wp - 1)\<rparr>) else Inr w))"

definition move_to_passed :: "datetime \<Rightarrow> Person \<Rightarrow> Person list \<Rightarrow> error + Person list" where
  "move_to_passed now p ps =
     (let stamp = (\<lambda>q. q\<lparr>status := ''passed'', passed_at := Some now\<rparr>)
      in if status p = ''waiting'' then
           (case for_rows (close_gap_body p) ps of
              Inl e \<Rightarrow> Inl e
            | Inr ps1 \<Rightarrow>
                Inr (update_row (id' p) stamp (update_row (id' p) (\<lambda>q. q\<lparr>position := None\<rparr>) ps1)))
         else Inr (update_row (id' p) stamp ps))"

definition move_person_to :: "datetime \<Rightarrow> int \<Rightarrow> string \<Rightarrow> int option \<Rightarrow> db \<Rightarrow> error + db" where
  "move_person_to now person_id to_status to_position d =
     (case query_get person_id (persons d) of
        None \<Rightarrow> Inl (ValueError ''person not found'')
      | Some p \<Rightarrow>
          (let moved =
                 (if to_status = ''waiting'' then
                    (if status p = ''passed''
                     then Inr (Some (move_from_passed p to_position (persons d)))
                     else if status p = ''waiting''
                     then move_within_waiting p to_position (persons d)
                     else Inr (Some (persons d)))
                  else if to_status = ''passed'' then
                    (case move_to_passed now p (persons d) of
                       Inl e \<Rightarrow> Inl e
                     | Inr ps' \<Rightarrow> Inr (Some ps'))
                  else Inl (ValueError ''invalid target status''))
           in case moved of
                Inl e \<Rightarrow> Inl e
              | Inr None \<Rightarrow> Inr d
              | Inr (Some ps') \<Rightarrow>
                  (let s = setting d;
                       s' = (if \<not> timer_paused s then
                               (if first_waiting ps' \<noteq> None then s\<lparr>start_time := Some now\<rparr>
                                else s\<lparr>start_time := None\<rparr>)
                             else s\<lparr>time_remaining_on_pause := Some (tour_length_seconds s)\<rparr>)
                   in Inr \<lparr>persons = ps', setting = s'\<rparr>)))"

section \<open>Pause and resume, interval length\<close>

text \<open>\<open>api_pause\<close> toggles: resume when paused, pause when running. Only the timer row changes.\<close>

definition api_pause :: "datetime \<Rightarrow> db \<Rightarrow> db" where
  "api_pause now d =
     (let s = setting d
      in if timer_paused s then
           (let rem = (case time_remaining_on_pause s of
                         None \<Rightarrow> tour_length_seconds s
                       | Some r \<Rightarrow> r)
            in d\<lparr>setting := s\<lparr>start_time := Some (now - timedelta (tour_length_seconds s - rem)),
                               time_remaining_on_pause := None,
                               timer_paused := False\<rparr>\<rparr>)
         else
           (let rem = (case start_time s of
                         None \<Rightarrow> tour_length_seconds s
                       | Some st \<Rightarrow>
                           max (py_int (of_int (tour_length_seconds s) - total_seconds (now - st))) 0)
            in d\<lparr>setting := s\<lparr>time_remaining_on_pause := Some rem, timer_paused := True\<rparr>\<rparr>))"

text \<open>
  The JSON body of \<open>/api/set-tour-length\<close> is an object. The values considered under its
  keys are \<open>null\<close>, booleans, integers and strings (a list or object value behaves like a
  string here: it is not a number). JSON floats are left out: what the code computes from
  them is binary floating-point arithmetic. \<open>isinstance(v, (int, float))\<close> holds for
  integers and for booleans (\<open>bool\<close> is a subclass of \<open>int\<close>, \<open>True\<close> counting as 1).
\<close>

datatype json = JNull | JBool bool | JInt int | JString string

fun py_number :: "json \<Rightarrow> int option" where
  "py_number (JInt n) = Some n"
| "py_number (JBool b) = Some (if b then 1 else 0)"
| "py_number JNull = None"
| "py_number (JString v) = None"

text \<open>\<open>'key' in data and isinstance(data['key'], (int, float))\<close>, with the number found.\<close>

definition number_at :: "(string \<rightharpoonup> json) \<Rightarrow> string \<Rightarrow> int option" where
  "number_at data key = (case data key of None \<Rightarrow> None | Some v \<Rightarrow> py_number v)"

text \<open>
  An \<open>Integer\<close> column of SQLite holds a signed 64-bit value; the commit of anything larger
  raises \<open>OverflowError\<close> and stores nothing.
\<close>

definition fits_integer_column :: "int \<Rightarrow> bool" where
  "fits_integer_column n = (- (2 ^ 63) \<le> n \<and> n < 2 ^ 63)"

text \<open>
  \<open>api_set_tour_length\<close>: \<open>minutes\<close> is used when it holds a number, else \<open>seconds\<close>. A
  request with neither is answered 400 before anything is written. Otherwise the new
  interval and the timer fields are written and committed.
\<close>

definition api_set_tour_length :: "datetime \<Rightarrow> (string \<rightharpoonup> json) \<Rightarrow> db \<Rightarrow> error + db" where
  "api_set_tour_length now data d =
     (let new_len = (case number_at data ''minutes'' of
                       Some m \<Rightarrow> Some (m * 60)
                     | None \<Rightarrow> number_at data ''seconds'')
      in case new_len of
           None \<Rightarrow> Inl (BadRequest ''seconds or minutes required'')
         | Some len \<Rightarrow>
             (let s = (setting d)\<lparr>tour_length_seconds := len\<rparr>;
                  s' = (if \<not> timer_paused s then s\<lparr>start_time := Some now\<rparr>
                        else s\<lparr>time_remaining_on_pause := Some (tour_length_seconds s)\<rparr>)
              in if fits_integer_column len then Inr (d\<lparr>setting := s'\<rparr>) else Inl OverflowError))"

section \<open>The operations as one step function\<close>

text \<open>
  One constructor for each operation that writes state: \<open>add_person\<close>,
  \<open>process_timer_advances\<close>, \<open>advance_next\<close>, \<open>go_back\<close>, \<open>reorder_waiting\<close>,
  \<open>move_person_to\<close>, \<open>api_pause\<close> and \<open>api_set_tour_length\<close>. \<open>perform\<close> gives the state a
  successful call leaves behind, and \<open>None\<close> when the call raised, was rejected or found
  nothing to act on (\<open>advance_next\<close> and \<open>go_back\<close> returning \<open>None\<close>).
\<close>

datatype operation =
    Add_person string
  | Process_timer_advances
  | Advance_next
  | Go_back
  | Reorder_waiting "int list"
  | Move_person_to int string "int option"
  | Api_pause
  | Api_set_tour_length "string \<rightharpoonup> json"

fun perform :: "datetime \<Rightarrow> operation \<Rightarrow> db \<Rightarrow> db option" where
  "perform now (Add_person nm) d = Some (snd (add_person now nm d))"
| "perform now Process_timer_advances d =
     (case process_timer_advances now d of (d', None) \<Rightarrow> Some d' | (d', Some e) \<Rightarrow> None)"
| "perform now Advance_next d =
     (case advance_next now d of
        Inl e \<Rightarrow> None
      | Inr (None, d') \<Rightarrow> None
      | Inr (Some p, d') \<Rightarrow> Some d')"
| "perform now Go_back d = (case go_back now d of (None, d') \<Rightarrow> None | (Some p, d') \<Rightarrow> Some d')"
| "perform now (Reorder_waiting new_order_ids) d =
     (case reorder_waiting now new_order_ids d of Inl e \<Rightarrow> None | Inr d' \<Rightarrow> Some d')"
| "perform now (Move_person_to person_id to_status to_position) d =
     (case move_person_to now person_id to_status to_position d of
        Inl e \<Rightarrow> None
      | Inr d' \<Rightarrow> Some d')"
| "perform now Api_pause d = Some (api_pause now d)"
| "perform now (Api_set_tour_length data) d =
     (case api_set_tour_length now data d of Inl e \<Rightarrow> None | Inr d' \<Rightarrow> Some d')"

section \<open>The invariants of the specification\<close>

text \<open>
  I1 in the specification's words: the positions of the waiting entries, read in queue
  order, are \<open>1, \<dots>, N\<close> for \<open>N\<close> the number of waiting entries: no gap, no duplicate,
  no missing position.
\<close>

definition I1 :: "Person list \<Rightarrow> bool" where
  "I1 ps = (map position (get_waiting ps) = map Some [1 .. int (length (get_waiting ps))])"

text \<open>
  The rows after the first \<open>k\<close> waiting entries have been popped, as the specification
  describes it: an entry at position \<open>i \<le> k\<close> is passed, without position, stamped
  \<open>stamp i\<close>; an entry behind them has moved up by \<open>k\<close>; every other row is as it was.
\<close>

definition popped :: "(int \<Rightarrow> datetime) \<Rightarrow> int \<Rightarrow> Person \<Rightarrow> Person" where
  "popped stamp k p =
     (if status p = ''waiting'' then
        (case position p of
           None \<Rightarrow> p
         | Some i \<Rightarrow>
             if i \<le> k then p\<lparr>status := ''passed'', passed_at := Some (stamp i), position := None\<rparr>
             else p\<lparr>position := Some (i - k)\<rparr>)
      else p)"

text \<open>
  What the position loop of \<open>reorder_waiting\<close> does to one row when it walks the ids from
  index \<open>k\<close> on: each id in turn writes its index plus one into the row with that id.
\<close>

fun renumbered :: "nat \<Rightarrow> int list \<Rightarrow> Person \<Rightarrow> Person" where
  "renumbered k [] p = p"
| "renumbered k (x # xs) p =
     renumbered (Suc k) xs (if id' p = x then p\<lparr>position := Some (int k + 1)\<rparr> else p)"

text \<open>
  I4 in the specification's words: paused implies no anchor and a frozen snapshot (except
  before any entry has ever been added, taken here as an empty table); running implies
  that the anchor is set iff somebody is waiting, and no snapshot.
\<close>

definition I4 :: "db \<Rightarrow> bool" where
  "I4 d =
     (let s = setting d
      in if timer_paused s
         then start_time s = None \<and> (time_remaining_on_pause s \<noteq> None \<or> persons d = [])
         else (start_time s \<noteq> None) = (waiting_rows (persons d) \<noteq> []) \<and>
              time_remaining_on_pause s = None)"

text \<open>
  I4 without its constraint on the anchor while paused: paused implies that the snapshot
  is set; running implies, as in I4, that the anchor is set iff somebody is waiting, and no
  snapshot.
\<close>

definition I4_kept :: "db \<Rightarrow> bool" where
  "I4_kept d =
     (let s = setting d
      in if timer_paused s
         then time_remaining_on_pause s \<noteq> None
         else (start_time s \<noteq> None) = (waiting_rows (persons d) \<noteq> []) \<and>
              time_remaining_on_pause s = None)"

text \<open>
  The calls that write an anchor without looking at the queue, made while nobody is
  waiting: resume, and \<open>api_set_tour_length\<close> and \<open>reorder_waiting\<close> on a running timer
  (\<open>reorder_waiting\<close> then succeeds on the empty list only, which \<open>api_reorder\<close> answers with
  400 and never passes on).
\<close>

definition anchors_empty_queue :: "operation \<Rightarrow> db \<Rightarrow> bool" where
  "anchors_empty_queue op d =
     (waiting_rows (persons d) = [] \<and>
      (case op of
         Api_pause \<Rightarrow> timer_paused (setting d)
       | Api_set_tour_length data \<Rightarrow> \<not> timer_paused (setting d)
       | Reorder_waiting new_order_ids \<Rightarrow> \<not> timer_paused (setting d)
       | _ \<Rightarrow> False))"

section \<open>Example states\<close>

text \<open>
  The queue after A, B and C have been enqueued at instants 10, 20 and 30 (microseconds) on
  a fresh database: interval 300 s, running, anchored at 10.
\<close>

definition ex_person :: "int \<Rightarrow> string \<Rightarrow> string \<Rightarrow> int option \<Rightarrow> datetime option \<Rightarrow> Person" where
  "ex_person i nm st pos passed =
     \<lparr>id' = i, name = nm, status = st, position = pos, added_at = Some (10 * i), passed_at = passed\<rparr>"

definition ex_abc :: db where
  "ex_abc =
     \<lparr>persons = [ex_person 1 ''A'' ''waiting'' (Some 1) None,
                 ex_person 2 ''B'' ''waiting'' (Some 2) None,
                 ex_person 3 ''C'' ''waiting'' (Some 3) None],
      setting = \<lparr>tour_length_seconds = 300, timer_paused = False, start_time = Some 10,
                 time_remaining_on_pause = None\<rparr>\<rparr>"

text \<open>The same queue after A has been advanced manually at instant 50.\<close>

definition ex_bc_a :: db where
  "ex_bc_a =
     \<lparr>persons = [ex_person 1 ''A'' ''passed'' None (Some 50),
                 ex_person 2 ''B'' ''waiting'' (Some 1) None,
                 ex_person 3 ''C'' ''waiting'' (Some 2) None],
      setting = \<lparr>tour_length_seconds = 300, timer_paused = False, start_time = Some 50,
                 time_remaining_on_pause = None\<rparr>\<rparr>"

text \<open>A fresh database, and a paused queue of two with a snapshot of 120 s and no anchor.\<close>

definition ex_fresh :: db where
  "ex_fresh =
     \<lparr>persons = [],
      setting = \<lparr>tour_length_seconds = 300, timer_paused = False, start_time = None,
                 time_remaining_on_pause = None\<rparr>\<rparr>"

definition ex_paused :: db where
  "ex_paused =
     \<lparr>persons = [ex_person 1 ''A'' ''waiting'' (Some 1) None,
                 ex_person 2 ''B'' ''waiting'' (Some 2) None],
      setting = \<lparr>tour_length_seconds = 300, timer_paused = True, start_time = None,
                 time_remaining_on_pause = Some 120\<rparr>\<rparr>"

section \<open>Properties\<close>

subsection \<open>Basic facts about the queries\<close>

lemma query_get_SomeD: "query_get i ps = Some p \<Longrightarrow> p \<in> set ps \<and> id' p = i"
  by (auto simp: query_get_def find_Some_iff)

lemma distinct_id_unique:
  "distinct (map id' ps) \<Longrightarrow> p \<in> set ps \<Longrightarrow> q \<in> set ps \<Longrightarrow> id' p = id' q \<Longrightarrow> p = q"
  by (auto simp: distinct_map dest: inj_onD)

lemma get_waiting_Nil [simp]: "get_waiting ps = [] \<longleftrightarrow> waiting_rows ps = []"
proof -
  have "length (get_waiting ps) = length (waiting_rows ps)" by (simp add: get_waiting_def)
  then show ?thesis by (metis length_0_conv)
qed

lemma first_waiting_None [simp]: "first_waiting ps = None \<longleftrightarrow> waiting_rows ps = []"
proof (cases "get_waiting ps")
  case Nil
  then show ?thesis by (simp add: first_waiting_def flip: get_waiting_Nil)
next
  case (Cons w ws)
  then show ?thesis by (simp add: first_waiting_def flip: get_waiting_Nil)
qed

lemma update_row_cong:
  "(\<And>q. q \<in> set ps \<Longrightarrow> id' q = i \<Longrightarrow> f q = g q) \<Longrightarrow> update_row i f ps = update_row i g ps"
  by (simp add: update_row_def)

lemma waiting_rows_update_row_other:
  "(\<And>q. q \<in> set ps \<Longrightarrow> id' q = i \<Longrightarrow> status q \<noteq> ''waiting'' \<and> status (f q) \<noteq> ''waiting'') \<Longrightarrow>
   waiting_rows (update_row i f ps) = waiting_rows ps"
  by (induction ps) (auto simp: waiting_rows_def update_row_def)


subsection \<open>Clock projection\<close>

lemma py_int_max_0: "max (py_int x) 0 = \<lfloor>max 0 x\<rfloor>"
proof (cases "x < 0")
  case True
  then have "\<lceil>x\<rceil> \<le> 0" by (simp add: ceiling_le_zero)
  with True show ?thesis by (simp add: py_int_def max_def)
next
  case False
  then have "0 \<le> \<lfloor>x\<rfloor>" and "max 0 x = x" by simp_all
  with False show ?thesis by (simp add: py_int_def)
qed

text \<open>
  C6: the clock projection returns the frozen snapshot when paused (whatever it holds),
  nothing when running without an anchor, and otherwise the floor of
  \<open>max(0, intervalSeconds - secondsSince(anchorTime))\<close>; it is a function of the timer row
  and the instant alone and returns only a value.
\<close>

theorem compute_time_remaining_seconds_spec:
  "compute_time_remaining_seconds now s = remainingSeconds_spec now s"
  by (cases "start_time s")
     (simp_all add: compute_time_remaining_seconds_def remainingSeconds_spec_def py_int_max_0)

subsection \<open>Catch-up advance is idempotent\<close>

lemma pta_loop_no_anchor: "start_time (setting d) = None \<Longrightarrow> pta_loop now L d = (d, None)"
  by (simp add: pta_loop.simps [of now L d])

lemma pta_loop_fixed:
  "pta_loop now L d = (d', e) \<Longrightarrow> pta_loop now L d' = (d', e)"
proof (induction now L d arbitrary: d' e rule: pta_loop.induct)
  case (1 now L d)
  show ?case
  proof (cases "start_time (setting d)")
    case None
    with "1.prems" have "d' = d" and "e = None" by (simp_all add: pta_loop.simps [of now L d])
    with "1.prems" show ?thesis by simp
  next
    case (Some st)
    show ?thesis
    proof (cases "total_seconds (now - st) < of_int L")
      case True
      with Some "1.prems" have "d' = d" and "e = None"
        by (simp_all add: pta_loop.simps [of now L d])
      with "1.prems" show ?thesis by simp
    next
      case late: False
      show ?thesis
      proof (cases "first_waiting (persons d)")
        case None
        with Some late "1.prems" have "d' = d\<lparr>setting := (setting d)\<lparr>start_time := None, time_remaining_on_pause := None\<rparr>\<rparr>" and "e = None"
          by (simp_all add: pta_loop.simps [of now L d])
        then show ?thesis by (simp add: pta_loop_no_anchor)
      next
        case first: (Some first)
        show ?thesis
        proof (cases "pop_head (st + timedelta L) first (persons d)")
          case (Inl err)
          with Some late first "1.prems" have "d' = d" and "e = Some err"
            by (simp_all add: pta_loop.simps [of now L d])
          with "1.prems" show ?thesis by simp
        next
          case (Inr ps')
          with Some late first "1.prems"
          have "pta_loop now L
                  (d\<lparr>persons := ps',
                     setting := (setting d)\<lparr>start_time :=
                       (if get_waiting ps' \<noteq> [] then Some (st + timedelta L) else None)\<rparr>\<rparr>) = (d', e)"
            by (simp add: pta_loop.simps [of now L d])
          then show ?thesis by (rule "1.IH" [OF Some late first Inr])
        qed
      qed
    qed
  qed
qed

lemma pta_loop_frame:
  "pta_loop now L d = (d', e) \<Longrightarrow>
     tour_length_seconds (setting d') = tour_length_seconds (setting d) \<and>
     timer_paused (setting d') = timer_paused (setting d)"
proof (induction now L d arbitrary: d' e rule: pta_loop.induct)
  case (1 now L d)
  show ?case
  proof (cases "start_time (setting d)")
    case None
    with "1.prems" show ?thesis by (simp add: pta_loop.simps [of now L d])
  next
    case (Some st)
    show ?thesis
    proof (cases "total_seconds (now - st) < of_int L")
      case True
      with Some "1.prems" show ?thesis by (simp add: pta_loop.simps [of now L d])
    next
      case late: False
      show ?thesis
      proof (cases "first_waiting (persons d)")
        case None
        with Some late "1.prems" show ?thesis
          by (auto simp add: pta_loop.simps [of now L d])
      next
        case first: (Some first)
        show ?thesis
        proof (cases "pop_head (st + timedelta L) first (persons d)")
          case (Inl err)
          with Some late first "1.prems" show ?thesis
            by (simp add: pta_loop.simps [of now L d])
        next
          case (Inr ps')
          with Some late first "1.prems"
          have "pta_loop now L
                  (d\<lparr>persons := ps',
                     setting := (setting d)\<lparr>start_time :=
                       (if get_waiting ps' \<noteq> [] then Some (st + timedelta L) else None)\<rparr>\<rparr>) = (d', e)"
            by (simp add: pta_loop.simps [of now L d])
          from "1.IH" [OF Some late first Inr this] show ?thesis by simp
        qed
      qed
    qed
  qed
qed

text \<open>
  C4: catch-up advance is idempotent. For every state and instant, running
  \<open>process_timer_advances\<close> again on the state the first run left behind, at the same
  instant, leaves that state as it is (and ends the same way).
\<close>

theorem process_timer_advances_idempotent:
  "process_timer_advances now (fst (process_timer_advances now d)) = process_timer_advances now d"
proof (cases "timer_paused (setting d) \<or> start_time (setting d) = None")
  case True
  then show ?thesis by (simp add: process_timer_advances_def)
next
  case False
  obtain d' e where run: "pta_loop now (tour_length_seconds (setting d)) d = (d', e)"
    by (cases "pta_loop now (tour_length_seconds (setting d)) d")
  from False run have once: "process_timer_advances now d = (d', e)"
    by (auto simp add: process_timer_advances_def Let_def)
  from pta_loop_frame [OF run] False
  have same: "tour_length_seconds (setting d') = tour_length_seconds (setting d)"
    and np: "\<not> timer_paused (setting d')" by simp_all
  have again: "pta_loop now (tour_length_seconds (setting d)) d' = (d', e)"
    using run by (rule pta_loop_fixed)
  have "process_timer_advances now d' = (d', e)"
  proof (cases "start_time (setting d')")
    case None
    with again have "e = None" by (simp add: pta_loop_no_anchor)
    with None show ?thesis by (simp add: process_timer_advances_def Let_def)
  next
    case (Some a)
    with np same again show ?thesis by (simp add: process_timer_advances_def Let_def)
  qed
  with once show ?thesis by simp
qed

theorem process_timer_advances_idempotent_witness:
  "process_timer_advances 650000010 (fst (process_timer_advances 650000010 ex_abc)) =
     process_timer_advances 650000010 ex_abc"
  by (rule process_timer_advances_idempotent)

subsection \<open>Pause and resume\<close>

lemma py_int_of_int [simp]: "py_int (of_int n) = n"
  by (simp add: py_int_def)

lemma total_seconds_timedelta [simp]: "total_seconds (timedelta n) = of_int n"
  by (simp add: total_seconds_def timedelta_def)

text \<open>
  C7, as stated, says that pausing clears the anchor. It does not: \<open>api_pause\<close> writes the
  snapshot and the pause flag and leaves \<open>start_time\<close> as it was.
\<close>

theorem api_pause_keeps_anchor:
  "\<not> timer_paused (setting ex_abc) \<and> start_time (setting ex_abc) = Some 10 \<and>
   start_time (setting (api_pause 70 ex_abc)) = Some 10"
  by (simp add: ex_abc_def api_pause_def Let_def)

text \<open>
  C7, amended: for every running state with an anchor, pausing at \<open>now\<close> snapshots the clock
  projection \<open>r\<close> and sets the pause flag, leaving the anchor in place; resuming at \<open>now'\<close>
  sets the anchor to \<open>now' - (intervalSeconds - r)\<close>, clears the snapshot and the flag; and
  the clock projection at the instant of resume is exactly \<open>r\<close>, the projection at pause time.
\<close>

theorem pause_resume_round_trip:
  assumes "\<not> timer_paused (setting d)" and "start_time (setting d) = Some a"
  shows "\<exists>r. compute_time_remaining_seconds now (setting d) = Some r \<and>
           timer_paused (setting (api_pause now d)) \<and>
           time_remaining_on_pause (setting (api_pause now d)) = Some r \<and>
           start_time (setting (api_pause now d)) = Some a \<and>
           \<not> timer_paused (setting (api_pause now' (api_pause now d))) \<and>
           time_remaining_on_pause (setting (api_pause now' (api_pause now d))) = None \<and>
           start_time (setting (api_pause now' (api_pause now d))) =
             Some (now' - timedelta (tour_length_seconds (setting d) - r)) \<and>
           compute_time_remaining_seconds now' (setting (api_pause now' (api_pause now d))) = Some r"
proof -
  define r where "r = max (py_int (of_int (tour_length_seconds (setting d)) - total_seconds (now - a))) 0"
  have r0: "0 \<le> r" by (simp add: r_def)
  have before: "compute_time_remaining_seconds now (setting d) = Some r"
    using assms by (simp add: compute_time_remaining_seconds_def r_def)
  have paused: "setting (api_pause now d) =
      (setting d)\<lparr>time_remaining_on_pause := Some r, timer_paused := True\<rparr>"
    using assms by (simp add: api_pause_def Let_def r_def)
  have resumed: "setting (api_pause now' (api_pause now d)) =
      (setting d)\<lparr>start_time := Some (now' - timedelta (tour_length_seconds (setting d) - r)),
                   time_remaining_on_pause := None, timer_paused := False\<rparr>"
    by (simp add: api_pause_def [of now'] Let_def paused)
  have "compute_time_remaining_seconds now' (setting (api_pause now' (api_pause now d))) = Some r"
    using r0 by (simp add: resumed compute_time_remaining_seconds_def)
  with before paused resumed assms show ?thesis by simp
qed

theorem pause_resume_round_trip_witness:
  "\<not> timer_paused (setting ex_abc) \<and> start_time (setting ex_abc) = Some 10 \<and>
   compute_time_remaining_seconds 70000010 (setting ex_abc) = Some 230 \<and>
   start_time (setting (api_pause 70000010 ex_abc)) = Some 10 \<and>
   start_time (setting (api_pause 90000000 (api_pause 70000010 ex_abc))) = Some 20000000 \<and>
   compute_time_remaining_seconds 90000000 (setting (api_pause 90000000 (api_pause 70000010 ex_abc))) =
     Some 230"
  using pause_resume_round_trip [of ex_abc 10 70000010 90000000]
  by (simp add: ex_abc_def api_pause_def Let_def compute_time_remaining_seconds_def total_seconds_def
        py_int_def timedelta_def)

subsection \<open>Interval length change\<close>




subsection \<open>Re-stamping a passed entry restarts the head's interval\<close>

text \<open>
  C10: in a running state with a non-empty waiting queue, \<open>move_person_to(id, 'passed')\<close> on
  an entry that is already passed succeeds, refreshes that entry's \<open>passed_at\<close> to now and
  sets \<open>start_time\<close> to now, although no waiting row changes and the head stays the same.
  (Ids are the primary key, hence distinct.)
\<close>

theorem move_passed_to_passed_resets_anchor:
  assumes "distinct (map id' (persons d))"
    and "\<not> timer_paused (setting d)"
    and "waiting_rows (persons d) \<noteq> []"
    and "query_get i (persons d) = Some p"
    and "status p = ''passed''"
  shows "move_person_to now i ''passed'' to_position d =
           Inr \<lparr>persons = update_row i (\<lambda>q. q\<lparr>passed_at := Some now\<rparr>) (persons d),
                setting = (setting d)\<lparr>start_time := Some now\<rparr>\<rparr> \<and>
         waiting_rows (update_row i (\<lambda>q. q\<lparr>passed_at := Some now\<rparr>) (persons d)) =
           waiting_rows (persons d) \<and>
         first_waiting (update_row i (\<lambda>q. q\<lparr>passed_at := Some now\<rparr>) (persons d)) =
           first_waiting (persons d)"
proof -
  let ?ps' = "update_row i (\<lambda>q. q\<lparr>passed_at := Some now\<rparr>) (persons d)"
  from assms(4) have p: "p \<in> set (persons d)" "id' p = i" by (auto dest: query_get_SomeD)
  have only: "q = p" if "q \<in> set (persons d)" "id' q = i" for q
    using distinct_id_unique [OF assms(1) that(1) p(1)] that(2) p(2) by simp
  have same: "waiting_rows ?ps' = waiting_rows (persons d)"
    by (rule waiting_rows_update_row_other) (auto dest: only simp: assms(5))
  have stamp: "update_row (id' p) (\<lambda>q. q\<lparr>status := ''passed'', passed_at := Some now\<rparr>) (persons d) = ?ps'"
    unfolding p(2)
    by (rule update_row_cong) (use only assms(5) in auto)
  have "move_to_passed now p (persons d) = Inr ?ps'"
    using assms(5) stamp by (simp add: move_to_passed_def)
  with assms(2,3,4) same have "move_person_to now i ''passed'' to_position d =
      Inr \<lparr>persons = ?ps', setting = (setting d)\<lparr>start_time := Some now\<rparr>\<rparr>"
    by (simp add: move_person_to_def)
  with same show ?thesis by (simp add: first_waiting_def get_waiting_def)
qed

theorem move_passed_to_passed_resets_anchor_witness:
  "distinct (map id' (persons ex_bc_a)) \<and> \<not> timer_paused (setting ex_bc_a) \<and>
   waiting_rows (persons ex_bc_a) \<noteq> [] \<and>
   query_get 1 (persons ex_bc_a) = Some (ex_person 1 ''A'' ''passed'' None (Some 50)) \<and>
   move_person_to 90 1 ''passed'' None ex_bc_a =
     Inr \<lparr>persons = [ex_person 1 ''A'' ''passed'' None (Some 90),
                      ex_person 2 ''B'' ''waiting'' (Some 1) None,
                      ex_person 3 ''C'' ''waiting'' (Some 2) None],
          setting = \<lparr>tour_length_seconds = 300, timer_paused = False, start_time = Some 90,
                 time_remaining_on_pause = None\<rparr>\<rparr>"
  using move_passed_to_passed_resets_anchor [of ex_bc_a 1 "ex_person 1 ''A'' ''passed'' None (Some 50)" 90 None]
  by (simp add: ex_bc_a_def ex_person_def query_get_def waiting_rows_def update_row_def)

subsection \<open>States with contiguous positions\<close>

lemma sorted_map_Some_upto: "sorted (map Some [i..j])"
  by (simp add: sorted_map)

lemma I1_iff:
  "I1 ps \<longleftrightarrow> distinct (map position (waiting_rows ps)) \<and>
             position ` set (waiting_rows ps) = Some ` {1 .. int (length (waiting_rows ps))}"
  (is "_ \<longleftrightarrow> ?D \<and> ?S")
proof -
  let ?xs = "map position (get_waiting ps)"
  let ?ys = "map Some [1 .. int (length (waiting_rows ps))]"
  have len: "length (get_waiting ps) = length (waiting_rows ps)" by (simp add: get_waiting_def)
  have sx: "sorted ?xs" by (simp add: get_waiting_def)
  have dx: "distinct ?xs \<longleftrightarrow> ?D" by (simp add: get_waiting_def distinct_map)
  have setx: "set ?xs = position ` set (waiting_rows ps)" by (simp add: get_waiting_def)
  have dy: "distinct ?ys" by (simp add: distinct_map)
  have sety: "set ?ys = Some ` {1 .. int (length (waiting_rows ps))}" by simp
  show ?thesis
  proof
    assume "I1 ps"
    then have eq: "?xs = ?ys" by (simp add: I1_def len)
    from eq dy have "distinct ?xs" by simp
    moreover from eq have "set ?xs = set ?ys" by simp
    ultimately show "?D \<and> ?S" using dx setx sety by simp
  next
    assume "?D \<and> ?S"
    then have "distinct ?xs" and "set ?xs = set ?ys" using dx setx sety by simp_all
    with sx dy sorted_map_Some_upto have "?xs = ?ys"
      by (intro sorted_distinct_set_unique) auto
    then show "I1 ps" by (simp add: I1_def len)
  qed
qed

lemma I1_intro:
  assumes "distinct (map position (waiting_rows ps))"
    and "position ` set (waiting_rows ps) = Some ` {1 .. int m}"
  shows "I1 ps \<and> length (waiting_rows ps) = m"
proof -
  have "length (waiting_rows ps) = card (set (map position (waiting_rows ps)))"
    using assms(1) by (simp add: distinct_card del: set_map)
  also have "\<dots> = card (Some ` {1 .. int m})" using assms(2) by simp
  also have "\<dots> = m" by (simp add: card_image)
  finally have "length (waiting_rows ps) = m" .
  with assms show ?thesis by (simp add: I1_iff)
qed

lemma I1_positionD:
  assumes "I1 ps" and "w \<in> set (waiting_rows ps)"
  obtains i where "position w = Some i" and "1 \<le> i" and "i \<le> int (length (waiting_rows ps))"
proof -
  from assms have "position w \<in> Some ` {1 .. int (length (waiting_rows ps))}"
    by (auto simp: I1_iff)
  then show thesis using that by auto
qed

lemma I1_position_inj:
  assumes "I1 ps" and "w \<in> set (waiting_rows ps)" and "w' \<in> set (waiting_rows ps)"
    and "position w = position w'"
  shows "w = w'"
proof -
  from assms(1) have "inj_on position (set (waiting_rows ps))"
    by (simp add: I1_iff distinct_map)
  with assms(2-4) show ?thesis by (auto dest: inj_onD)
qed

lemma I1_position_ex:
  assumes "I1 ps" and "1 \<le> i" and "i \<le> int (length (waiting_rows ps))"
  obtains w where "w \<in> set (waiting_rows ps)" and "position w = Some i"
proof -
  from assms have "Some i \<in> position ` set (waiting_rows ps)" by (simp add: I1_iff)
  then show thesis using that by auto
qed

lemma waiting_rows_iff [simp]: "w \<in> set (waiting_rows ps) \<longleftrightarrow> w \<in> set ps \<and> status w = ''waiting''"
  by (simp add: waiting_rows_def)

lemma first_waiting_I1:
  assumes "I1 ps" and "first_waiting ps = Some f"
  shows "position f = Some 1"
proof -
  from assms(2) obtain rest where gw: "get_waiting ps = f # rest"
    by (auto simp: first_waiting_def split: list.splits)
  then have "1 \<le> int (length (get_waiting ps))" by simp
  then have "[1 .. int (length (get_waiting ps))] = 1 # [1 + 1 .. int (length (get_waiting ps))]"
    by (rule upto_rec1)
  with assms(1) gw show ?thesis by (simp add: I1_def)
qed

lemma for_rows_map:
  "(\<And>w. w \<in> set ps \<Longrightarrow> body w = Inr (g w)) \<Longrightarrow> for_rows body ps = Inr (map g ps)"
  by (induction ps) simp_all

lemma pop_head_I1:
  assumes I1: "I1 ps" and d: "distinct (map id' ps)" and f: "first_waiting ps = Some f"
  shows "pop_head stamp f ps = Inr (map (popped (\<lambda>_. stamp) 1) ps)"
proof -
  from f have fW: "f \<in> set (waiting_rows ps)" by (rule first_waiting_in_waiting_rows)
  then have fin: "f \<in> set ps" and fst: "status f = ''waiting''" by simp_all
  from I1 f have pf: "position f = Some 1" by (rule first_waiting_I1)
  define mark where "mark = (\<lambda>p::Person. p\<lparr>status := ''passed'', passed_at := Some stamp\<rparr>)"
  define g where "g = (\<lambda>w::Person. if status w = ''waiting'' \<and> id' w \<noteq> id' f then
        (case position w of None \<Rightarrow> w
         | Some wp \<Rightarrow> if wp > 1 then w\<lparr>position := Some (wp - 1)\<rparr> else w) else w)"
  have body: "shift_up_body f w = Inr (g w)" for w
    by (auto simp: shift_up_body_def g_def pf split: option.splits)
  have "for_rows (shift_up_body f) (update_row (id' f) mark ps) = Inr (map g (update_row (id' f) mark ps))"
    by (rule for_rows_map) (rule body)
  then have ph: "pop_head stamp f ps =
      Inr (update_row (id' f) (\<lambda>p. p\<lparr>position := None\<rparr>) (map g (update_row (id' f) mark ps)))"
    by (simp add: pop_head_def mark_def)
  have row: "(if id' (g (if id' p = id' f then mark p else p)) = id' f
              then (g (if id' p = id' f then mark p else p))\<lparr>position := None\<rparr>
              else g (if id' p = id' f then mark p else p)) = popped (\<lambda>_. stamp) 1 p"
    if pin: "p \<in> set ps" for p
  proof (cases "id' p = id' f")
    case True
    with d pin fin have "p = f" by (auto dest: distinct_id_unique)
    then show ?thesis by (simp add: g_def mark_def popped_def pf fst)
  next
    case other: False
    show ?thesis
    proof (cases "status p = ''waiting''")
      case True
      with pin have pW: "p \<in> set (waiting_rows ps)" by simp
      from I1 pW obtain i where i: "position p = Some i" "1 \<le> i" by (rule I1_positionD)
      have "i \<noteq> 1"
      proof
        assume "i = 1"
        with i pf have "position p = position f" by simp
        with I1 pW fW have "p = f" by (rule I1_position_inj)
        with other show False by simp
      qed
      with i other True show ?thesis by (auto simp: g_def popped_def split: option.splits)
    next
      case False
      with other show ?thesis by (simp add: g_def popped_def)
    qed
  qed
  have "update_row (id' f) (\<lambda>p. p\<lparr>position := None\<rparr>) (map g (update_row (id' f) mark ps)) =
        map (popped (\<lambda>_. stamp) 1) ps"
    unfolding update_row_def map_map o_def by (rule map_cong [OF refl]) (rule row)
  with ph show ?thesis by simp
qed

lemma positions_popped:
  "map position (waiting_rows (map (popped stamp k) ps)) =
     map (map_option (\<lambda>i. i - k))
       (filter (\<lambda>x. case x of None \<Rightarrow> True | Some i \<Rightarrow> k < i) (map position (waiting_rows ps)))"
  by (induction ps) (auto simp: popped_def waiting_rows_def split: option.splits)

lemma popped_I1:
  assumes "I1 ps" and "0 \<le> k"
  shows "I1 (map (popped stamp k) ps) \<and>
         length (waiting_rows (map (popped stamp k) ps)) = length (waiting_rows ps) - nat k"
proof (rule I1_intro)
  let ?P = "map position (waiting_rows ps)"
  let ?Q = "\<lambda>x. case x of None \<Rightarrow> True | Some i \<Rightarrow> k < i"
  from assms(1) have dP: "distinct ?P" and sP: "set ?P = Some ` {1 .. int (length (waiting_rows ps))}"
    by (simp_all add: I1_iff)
  have "inj_on (map_option (\<lambda>i. i - k)) (set (filter ?Q ?P))"
    by (rule inj_onI) (auto simp: option.map_sel split: option.splits elim!: option.collapse dest!: arg_cong [where f = "map_option (\<lambda>i. i + k)"])
  with dP show "distinct (map position (waiting_rows (map (popped stamp k) ps)))"
    unfolding positions_popped by (simp add: distinct_map)
  have "set (map position (waiting_rows (map (popped stamp k) ps))) =
        map_option (\<lambda>i. i - k) ` {x \<in> set ?P. ?Q x}"
    unfolding positions_popped by simp
  also have "\<dots> = map_option (\<lambda>i. i - k) ` {x \<in> Some ` {1 .. int (length (waiting_rows ps))}. ?Q x}"
    using sP by simp
  also have "\<dots> = Some ` {1 .. int (length (waiting_rows ps) - nat k)}"
  proof (intro equalityI subsetI)
    fix y assume "y \<in> map_option (\<lambda>i. i - k) ` {x \<in> Some ` {1 .. int (length (waiting_rows ps))}. ?Q x}"
    then obtain i where "y = Some (i - k)" "1 \<le> i" "i \<le> int (length (waiting_rows ps))" "k < i"
      by auto
    with assms(2) show "y \<in> Some ` {1 .. int (length (waiting_rows ps) - nat k)}" by auto
  next
    fix y assume "y \<in> Some ` {1 .. int (length (waiting_rows ps) - nat k)}"
    then obtain j where j: "y = Some j" "1 \<le> j" "j \<le> int (length (waiting_rows ps) - nat k)" by auto
    with assms(2) have "Some (j + k) \<in> {x \<in> Some ` {1 .. int (length (waiting_rows ps))}. ?Q x}"
      by auto
    then have "map_option (\<lambda>i. i - k) (Some (j + k)) \<in>
        map_option (\<lambda>i. i - k) ` {x \<in> Some ` {1 .. int (length (waiting_rows ps))}. ?Q x}"
      by (rule imageI)
    with j show "y \<in> map_option (\<lambda>i. i - k) ` {x \<in> Some ` {1 .. int (length (waiting_rows ps))}. ?Q x}"
      by simp
  qed
  finally show "position ` set (waiting_rows (map (popped stamp k) ps)) =
      Some ` {1 .. int (length (waiting_rows ps) - nat k)}" by simp
qed

subsection \<open>Catch-up after missed intervals\<close>

lemma id_popped [simp]: "id' (popped stamp k p) = id' p"
  by (simp add: popped_def split: option.splits)

lemma total_seconds_less: "total_seconds x < of_int L \<longleftrightarrow> x < timedelta L"
proof -
  have "total_seconds x < of_int L \<longleftrightarrow> (of_int x :: rat) < of_int (L * 1000000)"
    by (simp add: total_seconds_def pos_divide_less_eq)
  then show ?thesis by (simp only: of_int_less_iff timedelta_def)
qed


lemma popped_0:
  assumes "I1 ps"
  shows "map (popped stamp 0) ps = ps"
proof -
  have "popped stamp 0 p = p" if "p \<in> set ps" for p
  proof (cases "status p = ''waiting''")
    case True
    with that have "p \<in> set (waiting_rows ps)" by simp
    with assms obtain i where "position p = Some i" "1 \<le> i" by (rule I1_positionD)
    with True show ?thesis by (simp add: popped_def)
  next
    case False
    then show ?thesis by (simp add: popped_def)
  qed
  then show ?thesis by (simp add: map_idI)
qed

lemma popped_popped:
  assumes "I1 ps" and "0 \<le> k"
  shows "map (popped (\<lambda>i. a + timedelta L + timedelta (i * L)) k) (map (popped (\<lambda>_. a + timedelta L) 1) ps) =
         map (popped (\<lambda>i. a + timedelta (i * L)) (k + 1)) ps"
proof -
  have "popped (\<lambda>i. a + timedelta L + timedelta (i * L)) k (popped (\<lambda>_. a + timedelta L) 1 p) =
        popped (\<lambda>i. a + timedelta (i * L)) (k + 1) p" if "p \<in> set ps" for p
  proof (cases "status p = ''waiting''")
    case True
    with that have "p \<in> set (waiting_rows ps)" by simp
    with assms(1) obtain i where "position p = Some i" "1 \<le> i" by (rule I1_positionD)
    with True assms(2) show ?thesis
      by (cases "i = 1") (auto simp: popped_def timedelta_def algebra_simps)
  next
    case False
    then show ?thesis by (simp add: popped_def)
  qed
  then show ?thesis by simp
qed

lemma pta_loop_catch_up:
  assumes "I1 (persons d)" and "distinct (map id' (persons d))"
    and "start_time (setting d) = Some a" and "waiting_rows (persons d) \<noteq> []"
    and "timedelta (int k * L) \<le> now - a" and "now - a < timedelta ((int k + 1) * L)"
  shows "pta_loop now L d =
           (d\<lparr>persons := map (popped (\<lambda>i. a + timedelta (i * L)) (int k)) (persons d),
              setting := (setting d)\<lparr>start_time :=
                (if k < length (waiting_rows (persons d)) then Some (a + timedelta (int k * L))
                 else None)\<rparr>\<rparr>,
            None)"
  using assms
proof (induction k arbitrary: d a)
  case 0
  then have "now - a < timedelta L" by simp
  then have "total_seconds (now - a) < of_int L" by (simp add: total_seconds_less)
  with "0.prems"(3) have "pta_loop now L d = (d, None)" by (simp add: pta_loop.simps [of now L d])
  moreover from "0.prems"(4) have "0 < length (waiting_rows (persons d))" by simp
  moreover have "(setting d)\<lparr>start_time := Some a\<rparr> = setting d"
    using "0.prems"(3) by (metis Setting.surjective Setting.update_convs(3))
  ultimately show ?case using "0.prems"(1) by (simp add: popped_0 timedelta_def)
next
  case (Suc k)
  let ?ps = "persons d"
  let ?n = "length (waiting_rows ?ps)"
  let ?a1 = "a + timedelta L"
  let ?ps1 = "map (popped (\<lambda>_. ?a1) 1) ?ps"
  let ?d1 = "d\<lparr>persons := ?ps1,
               setting := (setting d)\<lparr>start_time := (if get_waiting ?ps1 \<noteq> [] then Some ?a1 else None)\<rparr>\<rparr>"
  from Suc.prems(5,6) have Lpos: "0 < L"
    by (simp add: timedelta_def algebra_simps)
  from Suc.prems(5) Lpos have "timedelta L \<le> now - a"
    by (simp add: timedelta_def algebra_simps) (smt (verit) mult_nonneg_nonneg of_nat_0_le_iff)
  then have late: "\<not> total_seconds (now - a) < of_int L" by (simp add: total_seconds_less)
  from Suc.prems(4) obtain f where f: "first_waiting ?ps = Some f"
    by (cases "first_waiting ?ps") simp_all
  have pop: "pop_head ?a1 f ?ps = Inr ?ps1"
    using Suc.prems(1,2) f by (rule pop_head_I1)
  have step: "pta_loop now L d = pta_loop now L ?d1"
    using Suc.prems(3) late f pop by (simp add: pta_loop.simps [of now L d])
  from popped_I1 [OF Suc.prems(1), of 1 "\<lambda>_. ?a1"]
  have I1': "I1 ?ps1" and len1: "length (waiting_rows ?ps1) = ?n - 1" by simp_all
  show ?case
  proof (cases "?n = 1")
    case True
    with len1 have empty: "waiting_rows ?ps1 = []" by simp
    then have run1: "pta_loop now L ?d1 = (?d1, None)" by (simp add: pta_loop_no_anchor)
    have eqps: "map (popped (\<lambda>i. a + timedelta (i * L)) (int (Suc k))) ?ps = ?ps1"
    proof (rule map_cong [OF refl])
      fix p assume pin: "p \<in> set ?ps"
      show "popped (\<lambda>i. a + timedelta (i * L)) (int (Suc k)) p = popped (\<lambda>_. ?a1) 1 p"
      proof (cases "status p = ''waiting''")
        case w: True
        with pin have "p \<in> set (waiting_rows ?ps)" by simp
        with Suc.prems(1) obtain i where "position p = Some i" "1 \<le> i" "i \<le> int ?n"
          by (rule I1_positionD)
        with True w show ?thesis by (simp add: popped_def)
      next
        case False
        then show ?thesis by (simp add: popped_def)
      qed
    qed
    have tgt: "d\<lparr>persons := map (popped (\<lambda>i. a + timedelta (i * L)) (int (Suc k))) ?ps,
                 setting := (setting d)\<lparr>start_time :=
                   (if Suc k < ?n then Some (a + timedelta (int (Suc k) * L)) else None)\<rparr>\<rparr> = ?d1"
      unfolding eqps using empty True by simp
    from step run1 have "pta_loop now L d = (?d1, None)" by (simp only:)
    then show ?thesis by (simp only: tgt)
  next
    case False
    with Suc.prems(4) have n2: "1 < ?n" by (cases "waiting_rows ?ps") auto
    with len1 have ne: "waiting_rows ?ps1 \<noteq> []" by auto
    have "pta_loop now L ?d1 =
           (?d1\<lparr>persons := map (popped (\<lambda>i. ?a1 + timedelta (i * L)) (int k)) (persons ?d1),
              setting := (setting ?d1)\<lparr>start_time :=
                (if k < length (waiting_rows (persons ?d1)) then Some (?a1 + timedelta (int k * L))
                 else None)\<rparr>\<rparr>,
            None)"
    proof (rule Suc.IH)
      show "I1 (persons ?d1)" using I1' by simp
      show "distinct (map id' (persons ?d1))" using Suc.prems(2) by (simp add: o_def)
      show "start_time (setting ?d1) = Some ?a1" using ne by simp
      show "waiting_rows (persons ?d1) \<noteq> []" using ne by simp
      show "timedelta (int k * L) \<le> now - ?a1" using Suc.prems(5)
        by (simp add: timedelta_def algebra_simps)
      show "now - ?a1 < timedelta ((int k + 1) * L)" using Suc.prems(6)
        by (simp add: timedelta_def algebra_simps)
    qed
    moreover have "map (popped (\<lambda>i. ?a1 + timedelta (i * L)) (int k)) ?ps1 =
        map (popped (\<lambda>i. a + timedelta (i * L)) (int (Suc k))) ?ps"
      using popped_popped [OF Suc.prems(1), of "int k" a L] by (simp add: add.commute)
    moreover have "?a1 + timedelta (int k * L) = a + timedelta (int (Suc k) * L)"
      by (simp add: timedelta_def algebra_simps)
    ultimately show ?thesis using step len1 n2 by (auto simp: less_diff_conv)
  qed
qed


text \<open>
  C3: in a running state with contiguous positions (I1; ids are the primary key) and
  somebody waiting, let the elapsed time since the anchor \<open>a\<close> lie in
  \<open>[k * intervalSeconds, (k + 1) * intervalSeconds)\<close>. Then one call of
  \<open>process_timer_advances\<close> returns normally; the entries at positions \<open>1, \<dots>, k\<close> (all of
  them when fewer than \<open>k\<close> wait) are passed, the one from position \<open>i\<close> stamped
  \<open>a + i * intervalSeconds\<close>; the others have moved up by \<open>k\<close>; every other row and timer
  field is untouched; the anchor is \<open>a + k * intervalSeconds\<close> when entries remain waiting
  and cleared otherwise. The number of waiting entries drops by \<open>k\<close> (to zero at most).
\<close>

theorem process_timer_advances_catches_up:
  assumes "I1 (persons d)" and "distinct (map id' (persons d))"
    and "\<not> timer_paused (setting d)" and "start_time (setting d) = Some a"
    and "waiting_rows (persons d) \<noteq> []"
    and "timedelta (int k * tour_length_seconds (setting d)) \<le> now - a"
    and "now - a < timedelta ((int k + 1) * tour_length_seconds (setting d))"
  shows "process_timer_advances now d =
           (d\<lparr>persons := map (popped (\<lambda>i. a + timedelta (i * tour_length_seconds (setting d))) (int k))
                             (persons d),
              setting := (setting d)\<lparr>start_time :=
                (if k < length (waiting_rows (persons d))
                 then Some (a + timedelta (int k * tour_length_seconds (setting d))) else None)\<rparr>\<rparr>,
            None) \<and>
         length (waiting_rows (map (popped (\<lambda>i. a + timedelta (i * tour_length_seconds (setting d))) (int k))
                                 (persons d))) =
           length (waiting_rows (persons d)) - k"
proof -
  have "process_timer_advances now d = pta_loop now (tour_length_seconds (setting d)) d"
    using assms(3,4) by (simp add: process_timer_advances_def Let_def)
  moreover note pta_loop_catch_up [OF assms(1,2,4,5,6,7)]
  moreover from popped_I1 [OF assms(1), of "int k"]
  have "length (waiting_rows (map (popped (\<lambda>i. a + timedelta (i * tour_length_seconds (setting d))) (int k))
                                 (persons d))) = length (waiting_rows (persons d)) - k"
    by simp
  ultimately show ?thesis by (simp only: simp_thms)
qed

theorem process_timer_advances_catches_up_witness:
  "I1 (persons ex_abc) \<and> distinct (map id' (persons ex_abc)) \<and> \<not> timer_paused (setting ex_abc) \<and>
   start_time (setting ex_abc) = Some 10 \<and> waiting_rows (persons ex_abc) \<noteq> [] \<and>
   timedelta (2 * tour_length_seconds (setting ex_abc)) \<le> 650000010 - 10 \<and>
   650000010 - 10 < timedelta (3 * tour_length_seconds (setting ex_abc)) \<and>
   process_timer_advances 650000010 ex_abc =
     (\<lparr>persons = [ex_person 1 ''A'' ''passed'' None (Some 300000010),
                  ex_person 2 ''B'' ''passed'' None (Some 600000010),
                  ex_person 3 ''C'' ''waiting'' (Some 1) None],
       setting = \<lparr>tour_length_seconds = 300, timer_paused = False, start_time = Some 600000010,
                  time_remaining_on_pause = None\<rparr>\<rparr>, None)"
  using process_timer_advances_catches_up [of ex_abc 10 2 650000010]
  by (simp add: I1_def get_waiting_def ex_abc_def ex_person_def waiting_rows_def timedelta_def
        popped_def upto.simps)

subsection \<open>Undo after manual advance\<close>

lemma sort_key_Nil_iff: "sort_key f xs = [] \<longleftrightarrow> xs = []"
proof -
  have "length (sort_key f xs) = length xs" by simp
  then show ?thesis by (metis length_0_conv)
qed

lemma sorted_le_last: "sorted ys \<Longrightarrow> y \<in> set ys \<Longrightarrow> y \<le> last ys"
  by (induction ys) auto

lemma last_sort_key_max:
  assumes "x \<in> set xs" and "\<And>y. y \<in> set xs \<Longrightarrow> y \<noteq> x \<Longrightarrow> f y < f x"
  shows "last (sort_key f xs) = x"
proof (rule ccontr)
  let ?ys = "sort_key f xs"
  assume neq: "last ?ys \<noteq> x"
  from assms(1) have ne: "?ys \<noteq> []" by (auto simp: sort_key_Nil_iff)
  then have "last ?ys \<in> set xs" using last_in_set [OF ne] by simp
  from assms(2) [OF this neq] have "f (last ?ys) < f x" .
  moreover have "f x \<le> last (map f ?ys)"
    by (rule sorted_le_last) (use assms(1) in simp_all)
  ultimately show False using ne by (simp add: last_map)
qed

lemma get_passed_newest:
  assumes "x \<in> set ps" and "status x = ''passed''"
    and "\<And>y. y \<in> set ps \<Longrightarrow> status y = ''passed'' \<Longrightarrow> y \<noteq> x \<Longrightarrow> passed_at y < passed_at x"
  obtains rest where "get_passed ps = x # rest"
proof -
  let ?ys = "sort_key passed_at (rev (filter (\<lambda>p. status p = ''passed'') ps))"
  have "last ?ys = x" by (rule last_sort_key_max) (use assms in auto)
  moreover from assms(1,2) have "?ys \<noteq> []" by (auto simp: sort_key_Nil_iff filter_empty_conv)
  ultimately have eq: "butlast ?ys @ [x] = ?ys" using append_butlast_last_id [of ?ys] by simp
  have "rev (butlast ?ys @ [x]) = x # rev (butlast ?ys)" by simp
  then have "rev ?ys = x # rev (butlast ?ys)" by (simp only: eq)
  then have "get_passed ps = x # rev (butlast ?ys)" by (simp only: get_passed_def)
  then show thesis by (rule that)
qed


text \<open>
  C8: in a state with contiguous positions (I1; ids are the primary key), a non-empty
  waiting queue, and every passed entry stamped before the instant of the advance,
  \<open>advance_next\<close> followed by \<open>go_back\<close> succeeds and restores the queue: go_back returns the
  entry that was head, back at position 1, and every row has its status and position from
  before the advance (the rows differ from the original ones at most in the head's
  \<open>passed_at\<close>, which is cleared).
\<close>

theorem advance_next_then_go_back:
  assumes I1: "I1 (persons d)" and dist: "distinct (map id' (persons d))"
    and ne: "waiting_rows (persons d) \<noteq> []"
    and older: "\<forall>p \<in> set (persons d). status p = ''passed'' \<longrightarrow> passed_at p < Some now"
  shows "\<exists>f r d1 d2.
           first_waiting (persons d) = Some f \<and>
           advance_next now d = Inr (Some r, d1) \<and>
           go_back now' d1 = (Some (f\<lparr>passed_at := None\<rparr>), d2) \<and>
           persons d2 = update_row (id' f) (\<lambda>p. p\<lparr>passed_at := None\<rparr>) (persons d) \<and>
           map position (persons d2) = map position (persons d) \<and>
           map status (persons d2) = map status (persons d)"
proof -
  let ?ps = "persons d"
  let ?ps1 = "map (popped (\<lambda>_. now) 1) ?ps"
  from ne obtain f where f: "first_waiting ?ps = Some f"
    by (cases "first_waiting ?ps") simp_all
  from f have fW: "f \<in> set (waiting_rows ?ps)" by (rule first_waiting_in_waiting_rows)
  then have fin: "f \<in> set ?ps" and fst: "status f = ''waiting''" by simp_all
  from I1 f have pf: "position f = Some 1" by (rule first_waiting_I1)
  define f1 where "f1 = f\<lparr>status := ''passed'', passed_at := Some now, position := None\<rparr>"
  have pop: "pop_head now f ?ps = Inr ?ps1" using I1 dist f by (rule pop_head_I1)
  obtain s2 where adv: "advance_next now d = Inr (Some f1, \<lparr>persons = ?ps1, setting = s2\<rparr>)"
    using f pop by (simp add: advance_next_def Let_def f1_def)
  have f1_eq: "f1 = popped (\<lambda>_. now) 1 f" by (simp add: popped_def fst pf f1_def)
  then have f1in: "f1 \<in> set ?ps1" using fin by simp
  have f1st: "status f1 = ''passed''" by (simp add: f1_def)
  have newest: "passed_at y < passed_at f1"
    if "y \<in> set ?ps1" "status y = ''passed''" "y \<noteq> f1" for y
  proof -
    from that(1) obtain p where p: "p \<in> set ?ps" "y = popped (\<lambda>_. now) 1 p" by auto
    have "status p \<noteq> ''waiting''"
    proof
      assume w: "status p = ''waiting''"
      with p(1) have pW: "p \<in> set (waiting_rows ?ps)" by simp
      from I1 pW obtain i where i: "position p = Some i" "1 \<le> i" by (rule I1_positionD)
      from that(2) p(2) w i have "i = 1" by (simp add: popped_def split: if_splits)
      with i pf have "position p = position f" by simp
      with I1 pW fW have "p = f" by (rule I1_position_inj)
      with p(2) f1_eq that(3) show False by simp
    qed
    with p have "y = p" "status p = ''passed''" using that(2) by (simp_all add: popped_def)
    with older p(1) show ?thesis by (simp add: f1_def)
  qed
  from f1in f1st newest obtain rest where gp: "get_passed ?ps1 = f1 # rest"
    by (rule get_passed_newest)
  have restored: "f1\<lparr>status := ''waiting'', position := Some 1, passed_at := None\<rparr> = f\<lparr>passed_at := None\<rparr>"
    using fst pf by (cases f) (simp add: f1_def)
  define inc where "inc = (\<lambda>w::Person. if status w = ''waiting''
      then w\<lparr>position := Some (py_or (position w) 0 + 1)\<rparr> else w)"
  obtain s3 where gb: "go_back now' \<lparr>persons = ?ps1, setting = s2\<rparr> =
      (Some (f\<lparr>passed_at := None\<rparr>),
       \<lparr>persons = update_row (id' f1)
           (\<lambda>p. p\<lparr>status := ''waiting'', position := Some 1, passed_at := None\<rparr>) (map inc ?ps1),
        setting = s3\<rparr>)"
    using gp restored by (simp add: go_back_def Let_def inc_def)
  have idf1: "id' f1 = id' f" by (simp add: f1_def)
  have row: "(if id' (inc (popped (\<lambda>_. now) 1 p)) = id' f1
              then (inc (popped (\<lambda>_. now) 1 p))\<lparr>status := ''waiting'', position := Some 1, passed_at := None\<rparr>
              else inc (popped (\<lambda>_. now) 1 p)) =
             (if id' p = id' f then p\<lparr>passed_at := None\<rparr> else p)"
    if pin: "p \<in> set ?ps" for p
  proof (cases "id' p = id' f")
    case True
    with dist pin fin have pf': "p = f" by (auto dest: distinct_id_unique)
    then have "popped (\<lambda>_. now) 1 p = f1" using f1_eq by simp
    then show ?thesis using restored f1st pf' by (simp add: inc_def idf1)
  next
    case other: False
    show ?thesis
    proof (cases "status p = ''waiting''")
      case True
      with pin have pW: "p \<in> set (waiting_rows ?ps)" by simp
      from I1 pW obtain i where i: "position p = Some i" "1 \<le> i" by (rule I1_positionD)
      have "i \<noteq> 1"
      proof
        assume "i = 1"
        with i pf have "position p = position f" by simp
        with I1 pW fW have "p = f" by (rule I1_position_inj)
        with other show False by simp
      qed
      with i other True idf1 show ?thesis by (simp add: inc_def popped_def py_or_def)
    next
      case False
      with other idf1 show ?thesis by (simp add: inc_def popped_def)
    qed
  qed
  have ps2: "update_row (id' f1)
      (\<lambda>p. p\<lparr>status := ''waiting'', position := Some 1, passed_at := None\<rparr>) (map inc ?ps1) =
      update_row (id' f) (\<lambda>p. p\<lparr>passed_at := None\<rparr>) ?ps"
    unfolding update_row_def map_map o_def by (rule map_cong [OF refl]) (rule row)
  have "map position (update_row (id' f) (\<lambda>p. p\<lparr>passed_at := None\<rparr>) ?ps) = map position ?ps"
    and "map status (update_row (id' f) (\<lambda>p. p\<lparr>passed_at := None\<rparr>) ?ps) = map status ?ps"
    by (simp_all add: update_row_def)
  with f adv gb ps2 show ?thesis by simp
qed

theorem advance_next_then_go_back_witness:
  "I1 (persons ex_bc_a) \<and> distinct (map id' (persons ex_bc_a)) \<and>
   waiting_rows (persons ex_bc_a) \<noteq> [] \<and>
   passed_at (ex_person 1 ''A'' ''passed'' None (Some 50)) < Some 90 \<and>
   advance_next 90 ex_bc_a =
     Inr (Some (ex_person 2 ''B'' ''passed'' None (Some 90)),
          \<lparr>persons = [ex_person 1 ''A'' ''passed'' None (Some 50),
                      ex_person 2 ''B'' ''passed'' None (Some 90),
                      ex_person 3 ''C'' ''waiting'' (Some 1) None],
           setting = \<lparr>tour_length_seconds = 300, timer_paused = False, start_time = Some 90,
                      time_remaining_on_pause = None\<rparr>\<rparr>) \<and>
   go_back 95 \<lparr>persons = [ex_person 1 ''A'' ''passed'' None (Some 50),
                          ex_person 2 ''B'' ''passed'' None (Some 90),
                          ex_person 3 ''C'' ''waiting'' (Some 1) None],
               setting = \<lparr>tour_length_seconds = 300, timer_paused = False, start_time = Some 90,
                          time_remaining_on_pause = None\<rparr>\<rparr> =
     (Some (ex_person 2 ''B'' ''waiting'' (Some 1) None),
      \<lparr>persons = persons ex_bc_a,
       setting = \<lparr>tour_length_seconds = 300, timer_paused = False, start_time = Some 95,
                  time_remaining_on_pause = None\<rparr>\<rparr>)"
  using advance_next_then_go_back [of ex_bc_a 90 95]
  by (simp add: I1_def get_waiting_def get_passed_def ex_bc_a_def ex_person_def waiting_rows_def
        advance_next_def go_back_def first_waiting_def pop_head_def update_row_def shift_up_body_def
        py_or_def upto.simps)

subsection \<open>Bulk reorder\<close>

text \<open>
  The validation of \<open>reorder_waiting\<close> rejects an id that is not the id of a waiting row, and
  nothing has been written by then.
\<close>

lemma reorder_waiting_foreign_id:
  assumes "x \<in> set new_order_ids" and "x \<notin> id' ` set (waiting_rows (persons d))"
  shows "reorder_waiting now new_order_ids d = Inl (ValueError ''Invalid id in reorder'')"
  using assms by (auto simp: reorder_waiting_def)

text \<open>
  C2 fails on the code: with A, B, C waiting at positions 1, 2, 3 (ids 1, 2, 3),
  \<open>reorder_waiting([2])\<close>, a proper subset, is accepted and moves B to position 1 next to A;
  \<open>reorder_waiting([3, 3])\<close>, a duplicate, is accepted and leaves C at position 2 next to B. Both
  reset the anchor.
\<close>

theorem reorder_waiting_accepts_subset_and_duplicate:
  "reorder_waiting 70 [2] ex_abc =
     Inr \<lparr>persons = [ex_person 1 ''A'' ''waiting'' (Some 1) None,
                      ex_person 2 ''B'' ''waiting'' (Some 1) None,
                      ex_person 3 ''C'' ''waiting'' (Some 3) None],
          setting = \<lparr>tour_length_seconds = 300, timer_paused = False, start_time = Some 70,
                     time_remaining_on_pause = None\<rparr>\<rparr> \<and>
   reorder_waiting 70 [3, 3] ex_abc =
     Inr \<lparr>persons = [ex_person 1 ''A'' ''waiting'' (Some 1) None,
                      ex_person 2 ''B'' ''waiting'' (Some 2) None,
                      ex_person 3 ''C'' ''waiting'' (Some 2) None],
          setting = \<lparr>tour_length_seconds = 300, timer_paused = False, start_time = Some 70,
                     time_remaining_on_pause = None\<rparr>\<rparr>"
  by (simp add: reorder_waiting_def ex_abc_def ex_person_def waiting_rows_def update_row_def
        enumerate_eq_zip)

subsection \<open>Operations that keep the positions contiguous\<close>

lemma distinct_rows: "distinct (map id' ps) \<Longrightarrow> distinct ps"
  by (simp add: distinct_map)

lemma I1_map_intro:
  assumes "distinct ps"
    and "inj_on (\<lambda>p. position (g p)) {p \<in> set ps. status (g p) = ''waiting''}"
    and "(\<lambda>p. position (g p)) ` {p \<in> set ps. status (g p) = ''waiting''} = Some ` {1 .. int m}"
  shows "I1 (map g ps) \<and> length (waiting_rows (map g ps)) = m"
proof (rule I1_intro)
  have W: "waiting_rows (map g ps) = map g (filter (\<lambda>p. status (g p) = ''waiting'') ps)"
    by (simp add: waiting_rows_def filter_map o_def)
  show "distinct (map position (waiting_rows (map g ps)))"
    using assms(1,2) by (simp add: W distinct_map o_def)
  show "position ` set (waiting_rows (map g ps)) = Some ` {1 .. int m}"
    using assms(3) by (simp add: W image_image)
qed

lemma go_back_I1:
  assumes I1: "I1 (persons d)" and dist: "distinct (map id' (persons d))"
    and gb: "go_back now d = (r, d')"
  shows "I1 (persons d') \<and> distinct (map id' (persons d'))"
proof (cases "get_passed (persons d)")
  case Nil
  with gb I1 dist show ?thesis by (simp add: go_back_def)
next
  case (Cons lp rest)
  let ?ps = "persons d"
  let ?n = "length (waiting_rows ?ps)"
  define g where "g = (\<lambda>p::Person.
      if id' p = id' lp then p\<lparr>status := ''waiting'', position := Some 1, passed_at := None\<rparr>
      else if status p = ''waiting'' then p\<lparr>position := Some (py_or (position p) 0 + 1)\<rparr> else p)"
  from Cons have "lp \<in> set (get_passed ?ps)" by simp
  then have lpin: "lp \<in> set ?ps" and lpst: "status lp = ''passed''" by (simp_all add: get_passed_def)
  have only: "p = lp" if "p \<in> set ?ps" "id' p = id' lp" for p
    using distinct_id_unique [OF dist that(1) lpin that(2)] .
  have ps': "persons d' = map g ?ps"
    using gb Cons by (auto simp: go_back_def Let_def update_row_def g_def)
  have st: "status (g p) = ''waiting'' \<longleftrightarrow> p = lp \<or> status p = ''waiting''" if "p \<in> set ?ps" for p
    using only [OF that] by (auto simp: g_def)
  have pos_lp: "position (g lp) = Some 1" by (simp add: g_def)
  have pos_w: "\<exists>i. position p = Some i \<and> 1 \<le> i \<and> i \<le> int ?n \<and> position (g p) = Some (i + 1)"
    if "p \<in> set ?ps" "status p = ''waiting''" for p
  proof -
    from that have pW: "p \<in> set (waiting_rows ?ps)" by simp
    from I1 pW obtain i where i: "position p = Some i" "1 \<le> i" "i \<le> int ?n" by (rule I1_positionD)
    moreover have "id' p \<noteq> id' lp" using only [OF that(1)] that(2) lpst by auto
    ultimately show ?thesis using that(2) by (auto simp: g_def py_or_def)
  qed
  have "I1 (map g ?ps) \<and> length (waiting_rows (map g ?ps)) = Suc ?n"
  proof (rule I1_map_intro)
    show "distinct ?ps" using dist by (rule distinct_rows)
    show "inj_on (\<lambda>p. position (g p)) {p \<in> set ?ps. status (g p) = ''waiting''}"
    proof (rule inj_onI)
      fix p q
      assume p: "p \<in> {p \<in> set ?ps. status (g p) = ''waiting''}"
        and q: "q \<in> {p \<in> set ?ps. status (g p) = ''waiting''}"
        and eq: "position (g p) = position (g q)"
      show "p = q"
      proof (cases "p = lp")
        case True
        show ?thesis
        proof (cases "q = lp")
          case False
          with q st have "status q = ''waiting''" by auto
          with q pos_w [of q] True pos_lp eq show ?thesis by auto
        qed (use True in simp)
      next
        case False
        with p st have pw: "status p = ''waiting''" by auto
        show ?thesis
        proof (cases "q = lp")
          case True
          with p pw pos_w [of p] pos_lp eq show ?thesis by auto
        next
          case qn: False
          with q st have qw: "status q = ''waiting''" by auto
          from p pw pos_w [of p] q qw pos_w [of q] eq have "position p = position q" by auto
          with I1 p q pw qw show ?thesis by (intro I1_position_inj [of ?ps]) auto
        qed
      qed
    qed
    show "(\<lambda>p. position (g p)) ` {p \<in> set ?ps. status (g p) = ''waiting''} = Some ` {1 .. int (Suc ?n)}"
    proof (intro equalityI subsetI)
      fix y assume "y \<in> (\<lambda>p. position (g p)) ` {p \<in> set ?ps. status (g p) = ''waiting''}"
      then obtain p where p: "p \<in> set ?ps" "status (g p) = ''waiting''" "y = position (g p)" by auto
      show "y \<in> Some ` {1 .. int (Suc ?n)}"
      proof (cases "p = lp")
        case True
        with p pos_lp show ?thesis by auto
      next
        case False
        with p st have "status p = ''waiting''" by auto
        with p pos_w [of p] show ?thesis by auto
      qed
    next
      fix y assume "y \<in> Some ` {1 .. int (Suc ?n)}"
      then obtain j where j: "y = Some j" "1 \<le> j" "j \<le> int ?n + 1" by auto
      show "y \<in> (\<lambda>p. position (g p)) ` {p \<in> set ?ps. status (g p) = ''waiting''}"
      proof (cases "j = 1")
        case True
        with j pos_lp lpin st [OF lpin] show ?thesis by (intro image_eqI [where x = lp]) auto
      next
        case False
        with j have "1 \<le> j - 1" "j - 1 \<le> int ?n" by auto
        with I1 obtain w where w: "w \<in> set (waiting_rows ?ps)" "position w = Some (j - 1)"
          by (rule I1_position_ex)
        then have "w \<in> set ?ps" "status w = ''waiting''" by simp_all
        with pos_w [of w] w(2) j st [of w] show ?thesis by (intro image_eqI [where x = w]) auto
      qed
    qed
  qed
  moreover have "id' (g p) = id' p" for p by (simp add: g_def)
  then have "map id' (map g ?ps) = map id' ?ps" by (simp add: o_def)
  ultimately show ?thesis using dist by (simp only: ps' simp_thms)
qed


lemma I1_intro_range:
  assumes "distinct (map position (waiting_rows ps))"
    and "position ` set (waiting_rows ps) \<subseteq> Some ` {1 .. int (length (waiting_rows ps))}"
  shows "I1 ps"
proof -
  let ?P = "map position (waiting_rows ps)"
  let ?n = "length (waiting_rows ps)"
  have "card (set ?P) = ?n" using assms(1) by (simp add: distinct_card del: set_map)
  moreover have "card (Some ` {1 .. int ?n}) = ?n" by (simp add: card_image)
  ultimately have "set ?P = Some ` {1 .. int ?n}"
    using assms(2) by (intro card_subset_eq) simp_all
  with assms(1) show ?thesis by (simp add: I1_iff)
qed

lemma le_foldr_max: "x \<in> set xs \<Longrightarrow> x \<le> foldr max xs (b::int)"
  by (induction xs) auto

lemma new_id_fresh: "new_id ps \<notin> id' ` set ps"
proof
  assume "new_id ps \<in> id' ` set ps"
  then have "new_id ps \<in> set (map id' ps)" by simp
  then have "new_id ps \<le> foldr max (map id' ps) 0" by (rule le_foldr_max)
  then show False by (simp add: new_id_def)
qed

lemma add_person_I1:
  assumes I1: "I1 (persons d)" and dist: "distinct (map id' (persons d))"
  shows "I1 (persons (snd (add_person now nm d))) \<and>
         distinct (map id' (persons (snd (add_person now nm d))))"
proof -
  let ?ps = "persons d"
  let ?gw = "get_waiting ?ps"
  let ?n = "length (waiting_rows ?ps)"
  define max_pos where
    "max_pos = (if ?gw \<noteq> [] then py_or (position (last ?gw)) (int (length ?gw)) else 0)"
  define new_person where
    "new_person = \<lparr>id' = new_id ?ps, name = nm, status = ''waiting'',
                  position = Some (max_pos + 1), added_at = Some now, passed_at = None\<rparr>"
  have len: "length ?gw = ?n" by (simp add: get_waiting_def)
  have mp: "max_pos = int ?n"
  proof (cases "?gw = []")
    case True
    then show ?thesis using len by (simp add: max_pos_def)
  next
    case False
    then have n1: "1 \<le> int ?n" using len by (cases ?gw) auto
    from False have "position (last ?gw) = last (map position ?gw)" by (simp add: last_map)
    also have "\<dots> = last (map Some [1 .. int ?n])" using I1 by (simp add: I1_def len)
    also have "[1 .. int ?n] = [1 .. int ?n - 1] @ [int ?n]" using n1 by (rule upto_rec2)
    finally have "position (last ?gw) = Some (int ?n)" by simp
    with False n1 show ?thesis by (simp add: max_pos_def py_or_def)
  qed
  have ps': "persons (snd (add_person now nm d)) = ?ps @ [new_person]"
    by (simp add: add_person_def Let_def max_pos_def new_person_def)
  have W: "waiting_rows (?ps @ [new_person]) = waiting_rows ?ps @ [new_person]"
    by (simp add: waiting_rows_def new_person_def)
  from I1 have dP: "distinct (map position (waiting_rows ?ps))"
    and sP: "position ` set (waiting_rows ?ps) = Some ` {1 .. int ?n}" by (simp_all add: I1_iff)
  have "I1 (?ps @ [new_person]) \<and> length (waiting_rows (?ps @ [new_person])) = Suc ?n"
  proof (rule I1_intro)
    have "Some (int ?n + 1) \<notin> Some ` {1 .. int ?n}" by auto
    with dP sP show "distinct (map position (waiting_rows (?ps @ [new_person])))"
      unfolding W by (simp add: new_person_def mp)
    have "{1 .. int (Suc ?n)} = insert (int ?n + 1) {1 .. int ?n}" by auto
    with sP show "position ` set (waiting_rows (?ps @ [new_person])) = Some ` {1 .. int (Suc ?n)}"
      unfolding W by (simp add: new_person_def mp)
  qed
  moreover have "distinct (map id' (?ps @ [new_person]))"
    using dist new_id_fresh [of ?ps] by (simp add: new_person_def)
  ultimately show ?thesis by (simp only: ps' simp_thms)
qed

lemma pop_head_keeps_I1:
  assumes "I1 ps" and "distinct (map id' ps)" and "first_waiting ps = Some f"
  obtains ps' where "pop_head stamp f ps = Inr ps'" and "I1 ps'" and "distinct (map id' ps')"
proof -
  have "pop_head stamp f ps = Inr (map (popped (\<lambda>_. stamp) 1) ps)"
    using assms by (rule pop_head_I1)
  moreover have "I1 (map (popped (\<lambda>_. stamp) 1) ps)"
    using popped_I1 [OF assms(1), of 1] by simp
  moreover have "distinct (map id' (map (popped (\<lambda>_. stamp) 1) ps))"
    using assms(2) by (simp add: o_def)
  ultimately show thesis by (rule that)
qed

lemma advance_next_I1:
  assumes "I1 (persons d)" and "distinct (map id' (persons d))"
  shows "\<exists>r d'. advance_next now d = Inr (r, d') \<and> I1 (persons d') \<and> distinct (map id' (persons d'))"
proof (cases "first_waiting (persons d)")
  case None
  show ?thesis using assms by (simp add: advance_next_def None)
next
  case (Some f)
  from assms Some obtain ps' where "pop_head now f (persons d) = Inr ps'" "I1 ps'" "distinct (map id' ps')"
    by (rule pop_head_keeps_I1)
  with Some show ?thesis by (simp add: advance_next_def Let_def)
qed

lemma pta_loop_I1:
  "I1 (persons d) \<Longrightarrow> distinct (map id' (persons d)) \<Longrightarrow>
   \<exists>d'. pta_loop now L d = (d', None) \<and> I1 (persons d') \<and> distinct (map id' (persons d'))"
proof (induction now L d rule: pta_loop.induct)
  case (1 now L d)
  show ?case
  proof (cases "start_time (setting d)")
    case None
    with "1.prems" show ?thesis by (simp add: pta_loop_no_anchor)
  next
    case (Some st)
    show ?thesis
    proof (cases "total_seconds (now - st) < of_int L")
      case True
      with Some "1.prems" show ?thesis by (simp add: pta_loop.simps [of now L d])
    next
      case late: False
      show ?thesis
      proof (cases "first_waiting (persons d)")
        case None
        show ?thesis using Some late "1.prems" by (simp add: pta_loop.simps [of now L d] None)
      next
        case first: (Some f)
        from "1.prems" first obtain ps' where pop: "pop_head (st + timedelta L) f (persons d) = Inr ps'"
          and inv: "I1 ps'" "distinct (map id' ps')"
          by (rule pop_head_keeps_I1)
        let ?d1 = "d\<lparr>persons := ps',
                     setting := (setting d)\<lparr>start_time :=
                       (if get_waiting ps' \<noteq> [] then Some (st + timedelta L) else None)\<rparr>\<rparr>"
        have "pta_loop now L d = pta_loop now L ?d1"
          using Some late first pop by (simp add: pta_loop.simps [of now L d])
        moreover have "\<exists>d'. pta_loop now L ?d1 = (d', None) \<and> I1 (persons d') \<and> distinct (map id' (persons d'))"
          using inv by (intro "1.IH" [OF Some late first pop]) simp_all
        ultimately show ?thesis by simp
      qed
    qed
  qed
qed

lemma process_timer_advances_I1:
  assumes "I1 (persons d)" and "distinct (map id' (persons d))"
  shows "\<exists>d'. process_timer_advances now d = (d', None) \<and> I1 (persons d') \<and>
              distinct (map id' (persons d'))"
  using assms pta_loop_I1 [OF assms]
  by (auto simp: process_timer_advances_def Let_def)

lemma fold_update_row_renumbered:
  "fold (\<lambda>(idx, pid). update_row pid (\<lambda>p. p\<lparr>position := Some (int idx + 1)\<rparr>)) (enumerate k ids) ps =
     map (renumbered k ids) ps"
proof (induction ids arbitrary: k ps)
  case Nil
  then show ?case by simp
next
  case (Cons x xs)
  then show ?case by (simp add: update_row_def o_def)
qed

lemma renumbered_frame [simp]:
  "id' (renumbered k ids p) = id' p" "status (renumbered k ids p) = status p"
  by (induction ids arbitrary: k p) simp_all

lemma renumbered_other: "id' p \<notin> set ids \<Longrightarrow> renumbered k ids p = p"
  by (induction ids arbitrary: k p) simp_all

lemma renumbered_nth:
  "distinct ids \<Longrightarrow> j < length ids \<Longrightarrow> ids ! j = id' p \<Longrightarrow>
   position (renumbered k ids p) = Some (int (k + j) + 1)"
proof (induction ids arbitrary: k j p)
  case Nil
  then show ?case by simp
next
  case (Cons x xs)
  show ?case
  proof (cases j)
    case 0
    with Cons.prems show ?thesis by (simp add: renumbered_other)
  next
    case (Suc j')
    with Cons.prems have "id' p \<in> set xs" by (auto simp: in_set_conv_nth)
    with Cons.prems have "id' p \<noteq> x" by auto
    with Cons.prems Suc Cons.IH [of j' p "Suc k"] show ?thesis by simp
  qed
qed

lemma reorder_waiting_I1:
  assumes dist: "distinct (map id' (persons d))"
    and perm: "distinct new_order_ids" "set new_order_ids = id' ` set (waiting_rows (persons d))"
  shows "\<exists>d'. reorder_waiting now new_order_ids d = Inr d' \<and> I1 (persons d') \<and>
              distinct (map id' (persons d')) \<and>
              persons d' = map (renumbered 0 new_order_ids) (persons d)"
proof -
  let ?ps = "persons d"
  let ?g = "renumbered 0 new_order_ids"
  let ?W = "waiting_rows ?ps"
  have ok: "\<not> (\<exists>x \<in> set new_order_ids. x \<notin> set (map id' ?W))" using perm(2) by simp
  obtain s' where run: "reorder_waiting now new_order_ids d = Inr \<lparr>persons = map ?g ?ps, setting = s'\<rparr>"
    using ok by (simp add: reorder_waiting_def Let_def fold_update_row_renumbered)
  have W': "waiting_rows (map ?g ?ps) = map ?g ?W"
    by (simp add: waiting_rows_def filter_map o_def)
  have dW: "distinct ?W" using dist by (simp add: waiting_rows_def distinct_rows)
  have injW: "inj_on id' (set ?W)" using dist by (auto simp: distinct_map inj_on_def)
  have "length new_order_ids = card (set new_order_ids)" using perm(1) by (simp add: distinct_card)
  also have "\<dots> = card (set ?W)" using perm(2) injW by (simp add: card_image)
  also have "\<dots> = length ?W" using dW by (simp add: distinct_card)
  finally have len: "length new_order_ids = length ?W" .
  have idx: "\<exists>j < length ?W. new_order_ids ! j = id' w \<and> position (?g w) = Some (int j + 1)"
    if "w \<in> set ?W" for w
  proof -
    from that perm(2) have "id' w \<in> set new_order_ids" by auto
    then obtain j where j: "j < length new_order_ids" "new_order_ids ! j = id' w"
      by (auto simp: in_set_conv_nth)
    with perm(1) have "position (?g w) = Some (int (0 + j) + 1)" by (intro renumbered_nth)
    with j len show ?thesis by auto
  qed
  have "I1 (map ?g ?ps)"
  proof (rule I1_intro_range)
    have "inj_on (\<lambda>w. position (?g w)) (set ?W)"
    proof (rule inj_onI)
      fix v w assume v: "v \<in> set ?W" and w: "w \<in> set ?W" and eq: "position (?g v) = position (?g w)"
      from idx [OF v] idx [OF w] eq have "id' v = id' w" by auto
      with injW v w show "v = w" by (auto dest: inj_onD)
    qed
    with dW show "distinct (map position (waiting_rows (map ?g ?ps)))"
      by (simp add: W' distinct_map o_def)
    show "position ` set (waiting_rows (map ?g ?ps)) \<subseteq>
        Some ` {1 .. int (length (waiting_rows (map ?g ?ps)))}"
    proof
      fix y assume "y \<in> position ` set (waiting_rows (map ?g ?ps))"
      then obtain w where w: "w \<in> set ?W" and y: "y = position (?g w)"
        unfolding W' by auto
      from idx [OF w] obtain j where "j < length ?W" "position (?g w) = Some (int j + 1)" by auto
      then have "y \<in> Some ` {1 .. int (length ?W)}" using y by auto
      then show "y \<in> Some ` {1 .. int (length (waiting_rows (map ?g ?ps)))}"
        unfolding W' by simp
    qed
  qed
  moreover have "distinct (map id' (map ?g ?ps))" using dist by (simp add: o_def)
  ultimately show ?thesis using run by simp
qed

lemma I1_permute:
  assumes I1: "I1 ps"
    and st: "\<And>x. x \<in> set ps \<Longrightarrow> status (g x) = status x"
    and pos: "\<And>x i. x \<in> set ps \<Longrightarrow> status x = ''waiting'' \<Longrightarrow> position x = Some i \<Longrightarrow>
                position (g x) = Some (\<phi> i)"
    and inj: "inj_on \<phi> {1 .. int (length (waiting_rows ps))}"
    and range: "\<phi> ` {1 .. int (length (waiting_rows ps))} \<subseteq> {1 .. int (length (waiting_rows ps))}"
  shows "I1 (map g ps)"
proof (rule I1_intro_range)
  let ?W = "waiting_rows ps"
  let ?n = "length ?W"
  have "filter (\<lambda>p. status (g p) = ''waiting'') ps = filter (\<lambda>p. status p = ''waiting'') ps"
    by (rule filter_cong) (simp_all add: st)
  then have W': "waiting_rows (map g ps) = map g ?W"
    by (simp add: waiting_rows_def filter_map o_def)
  have P: "\<exists>i. position w = Some i \<and> i \<in> {1 .. int ?n} \<and> position (g w) = Some (\<phi> i)"
    if "w \<in> set ?W" for w
  proof -
    from I1 that obtain i where i: "position w = Some i" "1 \<le> i" "i \<le> int ?n" by (rule I1_positionD)
    moreover from that have "w \<in> set ps" "status w = ''waiting''" by simp_all
    ultimately show ?thesis using pos [of w i] by auto
  qed
  from I1 have dW: "distinct ?W" by (simp add: I1_iff distinct_map)
  have "inj_on (\<lambda>w. position (g w)) (set ?W)"
  proof (rule inj_onI)
    fix v w assume v: "v \<in> set ?W" and w: "w \<in> set ?W" and eq: "position (g v) = position (g w)"
    from P [OF v] obtain i where i: "position v = Some i" "i \<in> {1 .. int ?n}" "position (g v) = Some (\<phi> i)"
      by auto
    from P [OF w] obtain j where j: "position w = Some j" "j \<in> {1 .. int ?n}" "position (g w) = Some (\<phi> j)"
      by auto
    from eq i j have "\<phi> i = \<phi> j" by simp
    with inj i(2) j(2) have "i = j" by (auto dest: inj_onD)
    with i j have "position v = position w" by simp
    with I1 v w show "v = w" by (rule I1_position_inj)
  qed
  with dW show "distinct (map position (waiting_rows (map g ps)))"
    by (simp add: W' distinct_map o_def)
  show "position ` set (waiting_rows (map g ps)) \<subseteq> Some ` {1 .. int (length (waiting_rows (map g ps)))}"
  proof
    fix y assume "y \<in> position ` set (waiting_rows (map g ps))"
    then obtain w where w: "w \<in> set ?W" and y: "y = position (g w)" unfolding W' by auto
    from P [OF w] obtain i where i: "i \<in> {1 .. int ?n}" "position (g w) = Some (\<phi> i)" by auto
    from i(1) have "\<phi> i \<in> \<phi> ` {1 .. int ?n}" by (rule imageI)
    with range have "\<phi> i \<in> {1 .. int ?n}" by (rule subsetD)
    with i(2) y have "y \<in> Some ` {1 .. int ?n}" by simp
    then show "y \<in> Some ` {1 .. int (length (waiting_rows (map g ps)))}" unfolding W' by simp
  qed
qed


lemma I1_insert:
  assumes I1: "I1 ps" and dist: "distinct ps"
    and r: "r \<in> set ps" "status r \<noteq> ''waiting''"
    and q: "1 \<le> q" "q \<le> int (length (waiting_rows ps)) + 1"
    and g_r: "status (g r) = ''waiting''" "position (g r) = Some q"
    and g_w: "\<And>x i. x \<in> set ps \<Longrightarrow> status x = ''waiting'' \<Longrightarrow> position x = Some i \<Longrightarrow> 1 \<le> i \<Longrightarrow>
                status (g x) = ''waiting'' \<and> position (g x) = Some (if q \<le> i then i + 1 else i)"
    and g_o: "\<And>x. x \<in> set ps \<Longrightarrow> x \<noteq> r \<Longrightarrow> status x \<noteq> ''waiting'' \<Longrightarrow>
                status (g x) \<noteq> ''waiting''"
  shows "I1 (map g ps) \<and> length (waiting_rows (map g ps)) = Suc (length (waiting_rows ps))"
proof (rule I1_map_intro [OF dist])
  let ?n = "length (waiting_rows ps)"
  let ?A = "{p \<in> set ps. status (g p) = ''waiting''}"
  have old: "\<exists>i. position x = Some i \<and> 1 \<le> i \<and> i \<le> int ?n \<and>
                 position (g x) = Some (if q \<le> i then i + 1 else i)"
    if "x \<in> ?A" "x \<noteq> r" for x
  proof -
    from that g_o [of x] have x: "x \<in> set ps" "status x = ''waiting''" by auto
    then have "x \<in> set (waiting_rows ps)" by simp
    with I1 obtain i where i: "position x = Some i" "1 \<le> i" "i \<le> int ?n" by (rule I1_positionD)
    with g_w [OF x i(1,2)] show ?thesis by auto
  qed
  show "inj_on (\<lambda>p. position (g p)) ?A"
  proof (rule inj_onI)
    fix x y assume x: "x \<in> ?A" and y: "y \<in> ?A" and eq: "position (g x) = position (g y)"
    consider "x = r" "y = r" | "x = r" "y \<noteq> r" | "x \<noteq> r" "y = r" | "x \<noteq> r" "y \<noteq> r" by blast
    then show "x = y"
    proof cases
      case 1
      then show ?thesis by simp
    next
      case 2
      with old [OF y] g_r(2) eq show ?thesis by (auto split: if_splits)
    next
      case 3
      with old [OF x] g_r(2) eq show ?thesis by (auto split: if_splits)
    next
      case 4
      from old [OF x 4(1)] old [OF y 4(2)] eq have "position x = position y"
        by (auto split: if_splits)
      moreover from x 4(1) g_o [of x] have "x \<in> set (waiting_rows ps)" by auto
      moreover from y 4(2) g_o [of y] have "y \<in> set (waiting_rows ps)" by auto
      ultimately show ?thesis using I1 by (intro I1_position_inj [of ps])
    qed
  qed
  show "(\<lambda>p. position (g p)) ` ?A = Some ` {1 .. int (Suc ?n)}"
  proof (intro equalityI subsetI)
    fix y assume "y \<in> (\<lambda>p. position (g p)) ` ?A"
    then obtain x where x: "x \<in> ?A" "y = position (g x)" by auto
    show "y \<in> Some ` {1 .. int (Suc ?n)}"
    proof (cases "x = r")
      case True
      with x g_r(2) q show ?thesis by auto
    next
      case False
      with old [OF x(1)] x(2) show ?thesis by (auto split: if_splits)
    qed
  next
    fix y assume "y \<in> Some ` {1 .. int (Suc ?n)}"
    then obtain j where j: "y = Some j" "1 \<le> j" "j \<le> int ?n + 1" by auto
    consider "j = q" | "j < q" | "q < j" by linarith
    then show "y \<in> (\<lambda>p. position (g p)) ` ?A"
    proof cases
      case 1
      with j r(1) g_r show ?thesis by (intro image_eqI [where x = r]) auto
    next
      case 2
      with j q have j1: "1 \<le> j" "j \<le> int ?n" by auto
      with I1 obtain w where w: "w \<in> set (waiting_rows ps)" "position w = Some j"
        by (rule I1_position_ex)
      then have wps: "w \<in> set ps" "status w = ''waiting''" by simp_all
      from g_w [OF wps w(2) j1(1)] 2 j wps(1) show ?thesis
        by (intro image_eqI [where x = w]) auto
    next
      case 3
      with j q have j1: "1 \<le> j - 1" "j - 1 \<le> int ?n" by auto
      with I1 obtain w where w: "w \<in> set (waiting_rows ps)" "position w = Some (j - 1)"
        by (rule I1_position_ex)
      then have wps: "w \<in> set ps" "status w = ''waiting''" by simp_all
      from g_w [OF wps w(2) j1(1)] 3 j wps(1) show ?thesis
        by (intro image_eqI [where x = w]) auto
    qed
  qed
qed

lemma I1_remove:
  assumes I1: "I1 ps" and dist: "distinct ps"
    and r: "r \<in> set ps" "status r = ''waiting''" "position r = Some ob"
    and g_r: "status (g r) \<noteq> ''waiting''"
    and g_w: "\<And>x i. x \<in> set ps \<Longrightarrow> x \<noteq> r \<Longrightarrow> status x = ''waiting'' \<Longrightarrow> position x = Some i \<Longrightarrow>
                1 \<le> i \<Longrightarrow>
                status (g x) = ''waiting'' \<and> position (g x) = Some (if ob < i then i - 1 else i)"
    and g_o: "\<And>x. x \<in> set ps \<Longrightarrow> status x \<noteq> ''waiting'' \<Longrightarrow> status (g x) \<noteq> ''waiting''"
  shows "I1 (map g ps) \<and> length (waiting_rows (map g ps)) = length (waiting_rows ps) - 1"
proof (rule I1_map_intro [OF dist])
  let ?n = "length (waiting_rows ps)"
  let ?A = "{p \<in> set ps. status (g p) = ''waiting''}"
  from r have rW: "r \<in> set (waiting_rows ps)" by simp
  with I1 r(3) have ob: "1 \<le> ob" "ob \<le> int ?n" by (auto elim: I1_positionD)
  have old: "x \<noteq> r \<and> x \<in> set (waiting_rows ps) \<and>
             (\<exists>i. position x = Some i \<and> 1 \<le> i \<and> i \<le> int ?n \<and> i \<noteq> ob \<and>
                  position (g x) = Some (if ob < i then i - 1 else i))"
    if "x \<in> ?A" for x
  proof -
    from that g_r have xr: "x \<noteq> r" by auto
    from that g_o [of x] have x: "x \<in> set ps" "status x = ''waiting''" by auto
    then have xW: "x \<in> set (waiting_rows ps)" by simp
    with I1 obtain i where i: "position x = Some i" "1 \<le> i" "i \<le> int ?n" by (rule I1_positionD)
    have "i \<noteq> ob"
    proof
      assume "i = ob"
      with i r(3) have "position x = position r" by simp
      with I1 xW rW have "x = r" by (rule I1_position_inj)
      with xr show False by simp
    qed
    with g_w [OF x(1) xr x(2) i(1,2)] i xr xW show ?thesis by auto
  qed
  show "inj_on (\<lambda>p. position (g p)) ?A"
  proof (rule inj_onI)
    fix x y assume x: "x \<in> ?A" and y: "y \<in> ?A" and eq: "position (g x) = position (g y)"
    from old [OF x] old [OF y] eq have "position x = position y"
      by (auto split: if_splits)
    with old [OF x] old [OF y] I1 show "x = y" by (intro I1_position_inj [of ps]) auto
  qed
  show "(\<lambda>p. position (g p)) ` ?A = Some ` {1 .. int (?n - 1)}"
  proof (intro equalityI subsetI)
    fix y assume "y \<in> (\<lambda>p. position (g p)) ` ?A"
    then obtain x where x: "x \<in> ?A" "y = position (g x)" by auto
    with old [OF x(1)] ob show "y \<in> Some ` {1 .. int (?n - 1)}" by (auto split: if_splits)
  next
    fix y assume "y \<in> Some ` {1 .. int (?n - 1)}"
    then obtain j where j: "y = Some j" "1 \<le> j" "j \<le> int ?n - 1" by auto
    define i where "i = (if j < ob then j else j + 1)"
    with j ob have i: "1 \<le> i" "i \<le> int ?n" "i \<noteq> ob" "j = (if ob < i then i - 1 else i)"
      by (auto split: if_splits)
    from I1 i(1,2) obtain w where w: "w \<in> set (waiting_rows ps)" "position w = Some i"
      by (rule I1_position_ex)
    then have wps: "w \<in> set ps" "status w = ''waiting''" by simp_all
    from w(2) i(3) r(3) have "w \<noteq> r" by auto
    from g_w [OF wps(1) this wps(2) w(2) i(1)] i(4) j(1) wps(1) show "y \<in> (\<lambda>p. position (g p)) ` ?A"
      by (intro image_eqI [where x = w]) auto
  qed
qed

lemma move_from_passed_I1:
  assumes I1: "I1 ps" and dist: "distinct (map id' ps)"
    and r: "r \<in> set ps" "status r \<noteq> ''waiting''"
  shows "I1 (move_from_passed r to_position ps) \<and> distinct (map id' (move_from_passed r to_position ps))"
proof -
  let ?n = "length (waiting_rows ps)"
  define q where "q = (case to_position of None \<Rightarrow> 1
      | Some t \<Rightarrow> if t < 1 then 1 else min (int (length (get_waiting ps)) + 1) t)"
  define g where "g = (\<lambda>x::Person.
      if id' x = id' r then x\<lparr>status := ''waiting'', position := Some q, passed_at := None\<rparr>
      else if status x = ''waiting'' then
        (case position x of None \<Rightarrow> x
         | Some wp \<Rightarrow> if wp \<noteq> 0 \<and> wp \<ge> q then x\<lparr>position := Some (wp + 1)\<rparr> else x)
      else x)"
  have len: "length (get_waiting ps) = ?n" by (simp add: get_waiting_def)
  have qb: "1 \<le> q" "q \<le> int ?n + 1"
    by (auto simp: q_def len split: option.splits)
  have only: "x = r" if "x \<in> set ps" "id' x = id' r" for x
    using distinct_id_unique [OF dist that(1) r(1) that(2)] .
  have row: "(if id' (if status x = ''waiting'' then
                 (case position x of None \<Rightarrow> x
                  | Some wp \<Rightarrow> if wp \<noteq> 0 \<and> wp \<ge> q then x\<lparr>position := Some (wp + 1)\<rparr> else x)
               else x) = id' r
              then (if status x = ''waiting'' then
                 (case position x of None \<Rightarrow> x
                  | Some wp \<Rightarrow> if wp \<noteq> 0 \<and> wp \<ge> q then x\<lparr>position := Some (wp + 1)\<rparr> else x)
               else x)\<lparr>status := ''waiting'', position := Some q, passed_at := None\<rparr>
              else (if status x = ''waiting'' then
                 (case position x of None \<Rightarrow> x
                  | Some wp \<Rightarrow> if wp \<noteq> 0 \<and> wp \<ge> q then x\<lparr>position := Some (wp + 1)\<rparr> else x)
               else x)) = g x" for x
    by (auto simp: g_def split: option.splits)
  have mv: "move_from_passed r to_position ps = map g ps"
    unfolding move_from_passed_def Let_def q_def [symmetric] update_row_def map_map o_def
    by (rule map_cong [OF refl]) (rule row)
  have "I1 (map g ps) \<and> length (waiting_rows (map g ps)) = Suc ?n"
  proof (rule I1_insert [OF I1 distinct_rows [OF dist] r qb])
    show "status (g r) = ''waiting''" "position (g r) = Some q" by (simp_all add: g_def)
  next
    fix x i assume x: "x \<in> set ps" "status x = ''waiting''" "position x = Some i" "1 \<le> i"
    with only [OF x(1)] r(2) have "id' x \<noteq> id' r" by auto
    with x show "status (g x) = ''waiting'' \<and> position (g x) = Some (if q \<le> i then i + 1 else i)"
      by (auto simp: g_def)
  next
    fix x assume x: "x \<in> set ps" "x \<noteq> r" "status x \<noteq> ''waiting''"
    with only [OF x(1)] have "id' x \<noteq> id' r" by auto
    with x show "status (g x) \<noteq> ''waiting''" by (simp add: g_def)
  qed
  moreover have "id' (g x) = id' x" for x by (simp add: g_def split: option.splits)
  then have "map id' (map g ps) = map id' ps" by (simp add: o_def)
  ultimately show ?thesis using dist by (simp only: mv simp_thms)
qed

lemma move_to_passed_I1:
  assumes I1: "I1 ps" and dist: "distinct (map id' ps)" and r: "r \<in> set ps"
  shows "\<exists>ps'. move_to_passed now r ps = Inr ps' \<and> I1 ps' \<and> distinct (map id' ps')"
proof (cases "status r = ''waiting''")
  case False
  have only: "x = r" if "x \<in> set ps" "id' x = id' r" for x
    using distinct_id_unique [OF dist that(1) r that(2)] .
  let ?ps' = "update_row (id' r) (\<lambda>q. q\<lparr>status := ''passed'', passed_at := Some now\<rparr>) ps"
  have "waiting_rows ?ps' = waiting_rows ps"
    by (rule waiting_rows_update_row_other) (use only False in auto)
  with I1 have "I1 ?ps'" by (simp add: I1_def get_waiting_def)
  moreover have "map id' ?ps' = map id' ps" by (simp add: update_row_def o_def)
  ultimately show ?thesis using False dist by (simp add: move_to_passed_def)
next
  case True
  let ?n = "length (waiting_rows ps)"
  from r True have rW: "r \<in> set (waiting_rows ps)" by simp
  with I1 obtain ob where ob: "position r = Some ob" "1 \<le> ob" by (rule I1_positionD)
  have only: "x = r" if "x \<in> set ps" "id' x = id' r" for x
    using distinct_id_unique [OF dist that(1) r that(2)] .
  define h where "h = (\<lambda>w::Person. if status w \<noteq> ''waiting'' then w
      else case position w of None \<Rightarrow> w
        | Some wp \<Rightarrow> if wp = 0 then w else if wp > ob then w\<lparr>position := Some (wp - 1)\<rparr> else w)"
  define g where "g = (\<lambda>x::Person.
      if id' x = id' r then (h x)\<lparr>position := None, status := ''passed'', passed_at := Some now\<rparr>
      else h x)"
  have body: "close_gap_body r w = Inr (h w)" for w
    by (auto simp: close_gap_body_def h_def ob split: option.splits)
  have loop: "for_rows (close_gap_body r) ps = Inr (map h ps)"
    by (rule for_rows_map) (rule body)
  have idh: "id' (h x) = id' x" for x by (simp add: h_def split: option.splits)
  have row: "(if id' (if id' (h x) = id' r then (h x)\<lparr>position := None\<rparr> else h x) = id' r
              then (if id' (h x) = id' r then (h x)\<lparr>position := None\<rparr> else h x)
                     \<lparr>status := ''passed'', passed_at := Some now\<rparr>
              else (if id' (h x) = id' r then (h x)\<lparr>position := None\<rparr> else h x)) = g x" for x
    by (simp add: g_def idh)
  have "update_row (id' r) (\<lambda>q. q\<lparr>status := ''passed'', passed_at := Some now\<rparr>)
          (update_row (id' r) (\<lambda>q. q\<lparr>position := None\<rparr>) (map h ps)) = map g ps"
    unfolding update_row_def map_map o_def by (rule map_cong [OF refl]) (rule row)
  with True loop have mv: "move_to_passed now r ps = Inr (map g ps)"
    by (simp add: move_to_passed_def)
  have "I1 (map g ps) \<and> length (waiting_rows (map g ps)) = ?n - 1"
  proof (rule I1_remove [OF I1 distinct_rows [OF dist] r True ob(1)])
    show "status (g r) \<noteq> ''waiting''" by (simp add: g_def)
  next
    fix x i assume x: "x \<in> set ps" "x \<noteq> r" "status x = ''waiting''" "position x = Some i" "1 \<le> i"
    with only [OF x(1)] have "id' x \<noteq> id' r" by auto
    with x show "status (g x) = ''waiting'' \<and> position (g x) = Some (if ob < i then i - 1 else i)"
      by (auto simp: g_def h_def)
  next
    fix x assume "x \<in> set ps" "status x \<noteq> ''waiting''"
    then show "status (g x) \<noteq> ''waiting''" by (simp add: g_def h_def)
  qed
  moreover have "id' (g x) = id' x" for x by (simp add: g_def idh)
  then have "map id' (map g ps) = map id' ps" by (simp add: o_def)
  ultimately show ?thesis using dist by (simp only: mv sum.inject simp_thms ex_simps)
qed

lemma move_within_waiting_I1:
  assumes I1: "I1 ps" and dist: "distinct (map id' ps)"
    and r: "r \<in> set ps" "status r = ''waiting''"
  shows "\<exists>res. move_within_waiting r to_position ps = Inr res \<and>
           (case res of None \<Rightarrow> True | Some ps' \<Rightarrow> I1 ps' \<and> distinct (map id' ps'))"
proof (cases to_position)
  case None
  then show ?thesis by (simp add: move_within_waiting_def)
next
  case (Some t)
  let ?n = "length (waiting_rows ps)"
  define to_pos where "to_pos = max 1 (min (int (length (get_waiting ps))) t)"
  have len: "length (get_waiting ps) = ?n" by (simp add: get_waiting_def)
  from r have rW: "r \<in> set (waiting_rows ps)" by simp
  with I1 obtain ob where ob: "position r = Some ob" "1 \<le> ob" "ob \<le> int ?n" by (rule I1_positionD)
  then have tb: "1 \<le> to_pos" "to_pos \<le> int ?n" by (auto simp: to_pos_def len)
  show ?thesis
  proof (cases "ob = to_pos")
    case True
    with Some ob show ?thesis by (simp add: move_within_waiting_def Let_def to_pos_def)
  next
    case neq: False
    have only: "x = r" if "x \<in> set ps" "id' x = id' r" for x
      using distinct_id_unique [OF dist that(1) r(1) that(2)] .
    define \<phi> where "\<phi> = (\<lambda>i. if i = ob then to_pos
        else if ob > to_pos then (if to_pos \<le> i \<and> i < ob then i + 1 else i)
        else (if i \<le> to_pos \<and> i > ob then i - 1 else i))"
    define h where "h = (\<lambda>w::Person. if status w \<noteq> ''waiting'' then w
        else case position w of None \<Rightarrow> w
          | Some wp \<Rightarrow>
              if ob > to_pos then (if wp \<ge> to_pos \<and> wp < ob then w\<lparr>position := Some (wp + 1)\<rparr> else w)
              else (if wp \<le> to_pos \<and> wp > ob then w\<lparr>position := Some (wp - 1)\<rparr> else w))"
    define g where "g = (\<lambda>x::Person. if id' x = id' r then (h x)\<lparr>position := Some to_pos\<rparr> else h x)"
    have body: "(if ob > to_pos then shift_others_down_body to_pos ob
                 else shift_others_up_body to_pos ob) w = Inr (h w)" if "w \<in> set ps" for w
    proof (cases "status w = ''waiting''")
      case True
      with that have "w \<in> set (waiting_rows ps)" by simp
      with I1 obtain i where "position w = Some i" by (rule I1_positionD)
      with True show ?thesis
        by (simp add: shift_others_down_body_def shift_others_up_body_def h_def)
    next
      case False
      then show ?thesis by (simp add: shift_others_down_body_def shift_others_up_body_def h_def)
    qed
    have loop: "for_rows (if ob > to_pos then shift_others_down_body to_pos ob
                 else shift_others_up_body to_pos ob) ps = Inr (map h ps)"
      by (rule for_rows_map) (rule body)
    have idh: "id' (h x) = id' x" for x by (simp add: h_def split: option.splits)
    have "update_row (id' r) (\<lambda>q. q\<lparr>position := Some to_pos\<rparr>) (map h ps) = map g ps"
      by (simp add: update_row_def g_def idh)
    moreover from loop have "to_pos < ob \<Longrightarrow> for_rows (shift_others_down_body to_pos ob) ps = Inr (map h ps)"
      and "\<not> to_pos < ob \<Longrightarrow> for_rows (shift_others_up_body to_pos ob) ps = Inr (map h ps)"
      by simp_all
    ultimately have mv: "move_within_waiting r to_position ps = Inr (Some (map g ps))"
      using Some ob neq by (simp add: move_within_waiting_def Let_def to_pos_def [symmetric])
    have "I1 (map g ps)"
    proof (rule I1_permute [OF I1, where \<phi> = \<phi>])
      fix x assume "x \<in> set ps"
      show "status (g x) = status x" by (simp add: g_def h_def split: option.splits)
    next
      fix x i assume x: "x \<in> set ps" "status x = ''waiting''" "position x = Some i"
      show "position (g x) = Some (\<phi> i)"
      proof (cases "id' x = id' r")
        case True
        with only [OF x(1)] ob x(3) show ?thesis by (simp add: g_def \<phi>_def)
      next
        case False
        have "i \<noteq> ob"
        proof
          assume "i = ob"
          with x(3) ob have "position x = position r" by simp
          moreover from x have "x \<in> set (waiting_rows ps)" by simp
          ultimately have "x = r" using I1 rW by (intro I1_position_inj [of ps])
          with False show False by simp
        qed
        with False x show ?thesis by (simp add: g_def h_def \<phi>_def)
      qed
    next
      show "inj_on \<phi> {1 .. int ?n}"
        using ob tb neq by (auto simp: inj_on_def \<phi>_def split: if_splits)
    next
      show "\<phi> ` {1 .. int ?n} \<subseteq> {1 .. int ?n}"
        using ob tb neq by (auto simp: \<phi>_def split: if_splits)
    qed
    moreover have "map id' (map g ps) = map id' ps" by (simp add: o_def g_def idh)
    ultimately show ?thesis using dist by (simp only: mv sum.inject option.case simp_thms ex_simps)
  qed
qed


lemma move_person_to_I1:
  assumes I1: "I1 (persons d)" and dist: "distinct (map id' (persons d))"
    and mv: "move_person_to now person_id to_status to_position d = Inr d'"
  shows "I1 (persons d') \<and> distinct (map id' (persons d'))"
proof (cases "query_get person_id (persons d)")
  case None
  with mv show ?thesis by (simp add: move_person_to_def)
next
  case found: (Some r)
  then have r: "r \<in> set (persons d)" by (auto dest: query_get_SomeD)
  consider (from_passed) "to_status = ''waiting''" "status r = ''passed''"
    | (within) "to_status = ''waiting''" "status r = ''waiting''"
    | (neither) "to_status = ''waiting''" "status r \<noteq> ''passed''" "status r \<noteq> ''waiting''"
    | (to_passed) "to_status = ''passed''"
    | (invalid) "to_status \<noteq> ''waiting''" "to_status \<noteq> ''passed''"
    by blast
  then show ?thesis
  proof cases
    case from_passed
    then have "status r \<noteq> ''waiting''" by simp
    from move_from_passed_I1 [OF I1 dist r this, of to_position] mv found from_passed
    show ?thesis by (auto simp: move_person_to_def Let_def)
  next
    case within
    from move_within_waiting_I1 [OF I1 dist r within(2), of to_position]
    obtain res where res: "move_within_waiting r to_position (persons d) = Inr res"
      "case res of None \<Rightarrow> True | Some ps' \<Rightarrow> I1 ps' \<and> distinct (map id' ps')" by auto
    show ?thesis
    proof (cases res)
      case None
      with res mv found within I1 dist show ?thesis by (auto simp: move_person_to_def Let_def)
    next
      case (Some ps')
      with res mv found within show ?thesis
        by (auto simp: move_person_to_def Let_def)
    qed
  next
    case neither
    with mv found I1 dist show ?thesis by (auto simp: move_person_to_def Let_def)
  next
    case to_passed
    from move_to_passed_I1 [OF I1 dist r, of now]
    obtain ps' where "move_to_passed now r (persons d) = Inr ps'" "I1 ps'" "distinct (map id' ps')"
      by auto
    with mv found to_passed show ?thesis by (auto simp: move_person_to_def Let_def)
  next
    case invalid
    with mv found show ?thesis by (simp add: move_person_to_def Let_def)
  qed
qed

text \<open>
  Every successful operation other than a \<open>reorder_waiting\<close> with a defective id list keeps
  the positions contiguous (and the primary keys distinct); \<open>reorder_waiting\<close> does so
  when its ids are the waiting ids, each once.
\<close>

lemma perform_keeps_I1:
  assumes "I1 (persons d)" and "distinct (map id' (persons d))"
    and "perform now op d = Some d'"
    and "\<And>ids. op = Reorder_waiting ids \<Longrightarrow>
           distinct ids \<and> set ids = id' ` set (waiting_rows (persons d))"
  shows "I1 (persons d') \<and> distinct (map id' (persons d'))"
proof (cases op)
  case (Add_person nm)
  with assms(3) add_person_I1 [OF assms(1,2), of now nm] show ?thesis by auto
next
  case Process_timer_advances
  with assms(3) process_timer_advances_I1 [OF assms(1,2), of now] show ?thesis by auto
next
  case Advance_next
  with assms(3) advance_next_I1 [OF assms(1,2), of now] show ?thesis
    by (auto split: option.splits)
next
  case Go_back
  with assms(3) show ?thesis
    by (auto split: prod.splits option.splits dest: go_back_I1 [OF assms(1,2)])
next
  case (Reorder_waiting ids)
  with assms(4) have "distinct ids" "set ids = id' ` set (waiting_rows (persons d))" by simp_all
  from reorder_waiting_I1 [OF assms(2) this, of now] assms(3) Reorder_waiting show ?thesis by auto
next
  case (Move_person_to i st pos)
  with assms(3) show ?thesis
    by (auto split: sum.splits dest: move_person_to_I1 [OF assms(1,2)])
next
  case Api_pause
  with assms show ?thesis by (auto simp: api_pause_def Let_def)
next
  case (Api_set_tour_length data)
  with assms show ?thesis
    by (auto simp: api_set_tour_length_def Let_def split: option.splits if_splits)
qed

subsection \<open>The timer invariant\<close>

text \<open>
  C5, as stated, fails while paused. \<open>advance_next\<close> on a paused queue of two (no anchor,
  snapshot set) leaves the queue paused with the anchor set to now; and pausing the
  running queue A, B, C leaves the anchor where it was.
\<close>

theorem I4_broken_while_paused:
  "I4 ex_paused \<and>
   advance_next 50 ex_paused =
     Inr (Some (ex_person 1 ''A'' ''passed'' None (Some 50)),
          \<lparr>persons = [ex_person 1 ''A'' ''passed'' None (Some 50),
                      ex_person 2 ''B'' ''waiting'' (Some 1) None],
           setting = \<lparr>tour_length_seconds = 300, timer_paused = True, start_time = Some 50,
                      time_remaining_on_pause = Some 300\<rparr>\<rparr>) \<and>
   \<not> I4 \<lparr>persons = [ex_person 1 ''A'' ''passed'' None (Some 50),
                      ex_person 2 ''B'' ''waiting'' (Some 1) None],
           setting = \<lparr>tour_length_seconds = 300, timer_paused = True, start_time = Some 50,
                      time_remaining_on_pause = Some 300\<rparr>\<rparr> \<and>
   I4 ex_abc \<and>
   api_pause 70000010 ex_abc =
     ex_abc\<lparr>setting := \<lparr>tour_length_seconds = 300, timer_paused = True, start_time = Some 10,
                           time_remaining_on_pause = Some 230\<rparr>\<rparr> \<and>
   \<not> I4 (ex_abc\<lparr>setting := \<lparr>tour_length_seconds = 300, timer_paused = True, start_time = Some 10,
                                time_remaining_on_pause = Some 230\<rparr>\<rparr>)"
  by (simp add: I4_def ex_paused_def ex_abc_def ex_person_def waiting_rows_def advance_next_def
        first_waiting_def get_waiting_def pop_head_def update_row_def shift_up_body_def
        api_pause_def Let_def total_seconds_def py_int_def)

lemma waiting_rows_map_status:
  "(\<And>p. status (g p) = status p) \<Longrightarrow> waiting_rows (map g ps) = map g (waiting_rows ps)"
  by (simp add: waiting_rows_def filter_map o_def)

lemma add_person_I4_kept: "I4_kept d \<Longrightarrow> I4_kept (snd (add_person now nm d))"
  by (cases "timer_paused (setting d)")
     (auto simp: I4_kept_def add_person_def Let_def waiting_rows_def)

lemma pta_loop_I4_kept:
  "pta_loop now L d = (d', e) \<Longrightarrow> \<not> timer_paused (setting d) \<Longrightarrow> I4_kept d \<Longrightarrow> I4_kept d'"
proof (induction now L d arbitrary: d' e rule: pta_loop.induct)
  case (1 now L d)
  show ?case
  proof (cases "start_time (setting d)")
    case None
    with "1.prems" show ?thesis by (simp add: pta_loop_no_anchor)
  next
    case (Some st)
    show ?thesis
    proof (cases "total_seconds (now - st) < of_int L")
      case True
      with Some "1.prems" show ?thesis by (simp add: pta_loop.simps [of now L d])
    next
      case late: False
      show ?thesis
      proof (cases "first_waiting (persons d)")
        case None
        have "d' = d\<lparr>setting := (setting d)\<lparr>start_time := None, time_remaining_on_pause := None\<rparr>\<rparr>"
          using Some late "1.prems"(1) by (simp add: pta_loop.simps [of now L d] None)
        with None "1.prems"(2) show ?thesis by (simp add: I4_kept_def Let_def)
      next
        case first: (Some first)
        show ?thesis
        proof (cases "pop_head (st + timedelta L) first (persons d)")
          case (Inl err)
          with Some late first "1.prems" show ?thesis by (simp add: pta_loop.simps [of now L d])
        next
          case (Inr ps')
          let ?d1 = "d\<lparr>persons := ps',
                       setting := (setting d)\<lparr>start_time :=
                         (if get_waiting ps' \<noteq> [] then Some (st + timedelta L) else None)\<rparr>\<rparr>"
          from Inr Some late first "1.prems"(1) have run: "pta_loop now L ?d1 = (d', e)"
            by (simp add: pta_loop.simps [of now L d])
          have "\<not> timer_paused (setting ?d1)" using "1.prems"(2) by simp
          moreover have "I4_kept ?d1" using "1.prems"(2,3) by (auto simp add: I4_kept_def Let_def)
          ultimately show ?thesis
            using "1.IH" [OF Some late first Inr run] by simp
        qed
      qed
    qed
  qed
qed

lemma process_timer_advances_I4_kept:
  "process_timer_advances now d = (d', e) \<Longrightarrow> I4_kept d \<Longrightarrow> I4_kept d'"
  by (auto simp: process_timer_advances_def Let_def split: if_splits dest: pta_loop_I4_kept)

lemma advance_next_I4_kept:
  "advance_next now d = Inr (r, d') \<Longrightarrow> I4_kept d \<Longrightarrow> I4_kept d'"
  by (cases "timer_paused (setting d)")
     (auto simp: advance_next_def Let_def I4_kept_def split: option.splits sum.splits if_splits)

lemma go_back_I4_kept:
  assumes "go_back now d = (Some r, d')" and "I4_kept d"
  shows "I4_kept d'"
proof -
  from assms(1) obtain lp rest where gp: "get_passed (persons d) = lp # rest"
    by (cases "get_passed (persons d)") (simp_all add: go_back_def)
  then have "lp \<in> set (get_passed (persons d))" by simp
  then have lp: "lp \<in> set (persons d)" by (simp add: get_passed_def)
  define inc where "inc = (\<lambda>w::Person. if status w = ''waiting''
      then w\<lparr>position := Some (py_or (position w) 0 + 1)\<rparr> else w)"
  define undo where
    "undo = (\<lambda>p::Person. p\<lparr>status := ''waiting'', position := Some 1, passed_at := None\<rparr>)"
  let ?ps2 = "update_row (id' lp) undo (map inc (persons d))"
  have ps': "persons d' = ?ps2"
    using assms(1) gp by (auto simp: go_back_def Let_def inc_def undo_def)
  from lp have "undo (inc lp) \<in> set ?ps2"
    by (force simp: update_row_def inc_def)
  moreover have "status (undo (inc lp)) = ''waiting''" by (simp add: undo_def)
  ultimately have "waiting_rows ?ps2 \<noteq> []"
    by (auto simp: waiting_rows_def filter_empty_conv)
  with ps' assms gp show ?thesis
    by (cases "timer_paused (setting d)") (auto simp: go_back_def Let_def I4_kept_def)
qed

lemma reorder_waiting_I4_kept:
  assumes run: "reorder_waiting now ids d = Inr d'" and "I4_kept d"
    and "\<not> anchors_empty_queue (Reorder_waiting ids) d"
  shows "I4_kept d'"
proof -
  let ?ps = "persons d"
  from run have ps': "persons d' = map (renumbered 0 ids) ?ps"
    by (auto simp: reorder_waiting_def Let_def fold_update_row_renumbered split: if_splits)
  have "waiting_rows (map (renumbered 0 ids) ?ps) = map (renumbered 0 ids) (waiting_rows ?ps)"
    by (rule waiting_rows_map_status) simp
  with ps' have "waiting_rows (persons d') = [] \<longleftrightarrow> waiting_rows ?ps = []" by simp
  with run assms(2,3) show ?thesis
    by (cases "timer_paused (setting d)")
       (auto simp: reorder_waiting_def Let_def I4_kept_def anchors_empty_queue_def split: if_splits)
qed

lemma move_person_to_I4_kept:
  "move_person_to now i st pos d = Inr d' \<Longrightarrow> I4_kept d \<Longrightarrow> I4_kept d'"
  by (cases "timer_paused (setting d)")
     (auto simp: move_person_to_def Let_def I4_kept_def split: option.splits sum.splits if_splits)

lemma api_pause_I4_kept:
  "\<not> anchors_empty_queue Api_pause d \<Longrightarrow> I4_kept (api_pause now d)"
  by (auto simp: api_pause_def Let_def I4_kept_def anchors_empty_queue_def)

lemma api_set_tour_length_I4_kept:
  "api_set_tour_length now data d = Inr d' \<Longrightarrow> I4_kept d \<Longrightarrow>
   \<not> anchors_empty_queue (Api_set_tour_length data) d \<Longrightarrow> I4_kept d'"
  by (cases "timer_paused (setting d)")
     (auto simp: api_set_tour_length_def Let_def I4_kept_def anchors_empty_queue_def
           split: option.splits if_splits)

text \<open>
  C5, amended: every successful operation preserves I4 without its constraint on the
  anchor while paused, that is: paused implies that the frozen snapshot is set (the code
  sets it on every pause, so without exception); running implies that the anchor is
  non-null iff at least one entry is waiting, with no snapshot. In particular this holds
  after \<open>advance_next\<close> while paused. Resume, and \<open>api_set_tour_length\<close> and
  \<open>reorder_waiting\<close> on a running timer, are covered when somebody is waiting; nothing is
  said about them on an empty queue.
\<close>

theorem perform_keeps_I4_kept:
  assumes "I4_kept d" and "perform now op d = Some d'" and "\<not> anchors_empty_queue op d"
  shows "I4_kept d'"
proof (cases op)
  case (Add_person nm)
  with assms show ?thesis using add_person_I4_kept [of d now nm] by auto
next
  case Process_timer_advances
  with assms show ?thesis
    by (auto split: prod.splits option.splits dest: process_timer_advances_I4_kept)
next
  case Advance_next
  with assms show ?thesis
    by (auto split: prod.splits option.splits sum.splits dest: advance_next_I4_kept)
next
  case Go_back
  with assms show ?thesis
    by (auto split: prod.splits option.splits dest: go_back_I4_kept)
next
  case (Reorder_waiting ids)
  with assms show ?thesis
    by (auto split: sum.splits dest: reorder_waiting_I4_kept)
next
  case (Move_person_to i st pos)
  with assms show ?thesis
    by (auto split: sum.splits dest: move_person_to_I4_kept)
next
  case Api_pause
  with assms show ?thesis by (auto simp: api_pause_I4_kept)
next
  case (Api_set_tour_length data)
  with assms show ?thesis
    by (auto split: sum.splits dest: api_set_tour_length_I4_kept)
qed

theorem perform_keeps_I4_kept_witness:
  "I4_kept ex_paused \<and> \<not> anchors_empty_queue Advance_next ex_paused \<and>
   perform 50 Advance_next ex_paused =
     Some \<lparr>persons = [ex_person 1 ''A'' ''passed'' None (Some 50),
                       ex_person 2 ''B'' ''waiting'' (Some 1) None],
           setting = \<lparr>tour_length_seconds = 300, timer_paused = True, start_time = Some 50,
                      time_remaining_on_pause = Some 300\<rparr>\<rparr> \<and>
   I4_kept \<lparr>persons = [ex_person 1 ''A'' ''passed'' None (Some 50),
                       ex_person 2 ''B'' ''waiting'' (Some 1) None],
            setting = \<lparr>tour_length_seconds = 300, timer_paused = True, start_time = Some 50,
                       time_remaining_on_pause = Some 300\<rparr>\<rparr> \<and>
   \<not> anchors_empty_queue Api_pause ex_paused \<and>
   perform 200000000 Api_pause ex_paused =
     Some (ex_paused\<lparr>setting := \<lparr>tour_length_seconds = 300, timer_paused = False,
                                  start_time = Some 20000000, time_remaining_on_pause = None\<rparr>\<rparr>) \<and>
   I4_kept (ex_paused\<lparr>setting := \<lparr>tour_length_seconds = 300, timer_paused = False,
                                   start_time = Some 20000000, time_remaining_on_pause = None\<rparr>\<rparr>) \<and>
   I4_kept ex_abc \<and> \<not> anchors_empty_queue (Api_set_tour_length [''seconds'' \<mapsto> JInt 120]) ex_abc \<and>
   (\<exists>d'. perform 70 (Api_set_tour_length [''seconds'' \<mapsto> JInt 120]) ex_abc = Some d' \<and> I4_kept d')"
  using perform_keeps_I4_kept [of ex_paused 50 Advance_next]
        perform_keeps_I4_kept [of ex_paused 200000000 Api_pause]
        perform_keeps_I4_kept [of ex_abc 70 "Api_set_tour_length [''seconds'' \<mapsto> JInt 120]"]
  by (simp add: I4_kept_def anchors_empty_queue_def ex_paused_def ex_abc_def ex_person_def
        waiting_rows_def advance_next_def first_waiting_def get_waiting_def pop_head_def
        update_row_def shift_up_body_def api_pause_def Let_def timedelta_def
        api_set_tour_length_def number_at_def fits_integer_column_def)

subsection \<open>Contiguous positions\<close>

text \<open>
  C1 fails on the code through the same gap in the validation of \<open>reorder_waiting\<close>: the
  queue A, B, C satisfies I1, \<open>reorder_waiting([2])\<close> succeeds, and the state it leaves has
  two entries at position 1 and none at position 2.
\<close>

theorem I1_broken_by_reorder_waiting:
  "I1 (persons ex_abc) \<and>
   reorder_waiting 70 [2] ex_abc =
     Inr \<lparr>persons = [ex_person 1 ''A'' ''waiting'' (Some 1) None,
                      ex_person 2 ''B'' ''waiting'' (Some 1) None,
                      ex_person 3 ''C'' ''waiting'' (Some 3) None],
          setting = \<lparr>tour_length_seconds = 300, timer_paused = False, start_time = Some 70,
                     time_remaining_on_pause = None\<rparr>\<rparr> \<and>
   \<not> I1 [ex_person 1 ''A'' ''waiting'' (Some 1) None,
          ex_person 2 ''B'' ''waiting'' (Some 1) None,
          ex_person 3 ''C'' ''waiting'' (Some 3) None]"
  by (simp add: I1_def get_waiting_def reorder_waiting_def ex_abc_def ex_person_def waiting_rows_def
        update_row_def enumerate_eq_zip upto.simps)

end
